theory Spec2Isabelle
  imports Main
begin

unbundle bit_operations_syntax

section \<open>The receiver viewer: latest-frame cache and display loop\<close>

text \<open>
  A shallow embedding of \<^verbatim>\<open>receiver_view.py\<close>. The script keeps the most recent RGB and
  SLAM frame in four module-level variables, written by two SDK callbacks and read by the
  display loop of \<^verbatim>\<open>main\<close>.

  Numpy arrays are mutable objects that the program holds by reference, and
  \<^verbatim>\<open>cv2.putText\<close> draws into its argument in place. Arrays therefore live in a store:
  an address is an index into the list of all arrays created so far, and creating an array
  appends to that list. Arrays are never freed.
\<close>

subsection \<open>The array store\<close>

type_synonym addr = nat

definition alloc :: "'px \<Rightarrow> 'px list \<Rightarrow> addr \<times> 'px list" where
  "alloc v h = (length h, h @ [v])"

text \<open>\<^verbatim>\<open>image_data.to_numpy_array()\<close>: the decoded payload becomes a new array.\<close>

definition to_numpy_array :: "'px \<Rightarrow> 'px list \<Rightarrow> addr \<times> 'px list" where
  "to_numpy_array image_data h = alloc image_data h"

text \<open>\<^verbatim>\<open>a.copy()\<close>: a new array with the contents of the array at \<open>a\<close>.\<close>

definition ndarray_copy :: "addr \<Rightarrow> 'px list \<Rightarrow> addr \<times> 'px list" where
  "ndarray_copy a h = alloc (h ! a) h"

subsection \<open>Program state\<close>

text \<open>
  The only field of \<^verbatim>\<open>ImageDataRecord\<close> the script reads.
\<close>

record image_data_record =
  capture_timestamp_ns :: int

datatype stream_id = RGB | SLAM

datatype callback = Rgb_callback | Slam_callback

text \<open>
  The SDK's \<^verbatim>\<open>StreamReceiver\<close> object, as far as the script configures it: the two
  constructor flags, the server configuration, the recording path, the registered
  callbacks, and whether the server was started.
\<close>

record stream_receiver =
  enable_image_decoding :: bool
  enable_raw_stream :: bool
  server_config :: "(string \<times> int) option"
  vrs_path :: "string option"
  rgb_cb :: "callback option"
  slam_cb :: "callback option"
  server_started :: bool

text \<open>Calls into the console, OpenCV and the clock, in the order the main thread makes them.\<close>

datatype action =
    Print string
  | CvtColor addr addr
  | PutText addr string
  | ImShow string addr
  | WaitKey int
  | Sleep
  | DestroyAllWindows

datatype pyerror = Cv2Error

text \<open>How \<^verbatim>\<open>main\<close> ended: it returned, or an exception left it.\<close>

datatype exit_status = Returned | Raised pyerror

text \<open>
  Where the main thread stands: at one of the five statements of the loop body, or past
  the \<^verbatim>\<open>try\<close> statement.
\<close>

datatype phase =
    AtSnapshot | AtShowRgb | AtShowSlam | AtWaitKey | AtSleep
  | Exited exit_status

record 'px world =
  heap :: "'px list"
  latest_rgb :: "addr option"
  latest_slam :: "addr option"
  latest_rgb_ts :: "int option"
  latest_slam_ts :: "int option"
  sr :: stream_receiver
  rgb :: "addr option"
  slam :: "addr option"
  rgb_ts :: "int option"
  slam_ts :: "int option"
  phase :: phase
  out :: "action list"

subsection \<open>The callbacks\<close>

definition rgb_callback :: "'px \<Rightarrow> image_data_record \<Rightarrow> 'px world \<Rightarrow> 'px world" where
  "rgb_callback image_data image_record w =
     (let (img, h) = to_numpy_array image_data (heap w)
      in w\<lparr>heap := h, latest_rgb := Some img,
            latest_rgb_ts := Some (capture_timestamp_ns image_record)\<rparr>)"

definition slam_callback :: "'px \<Rightarrow> image_data_record \<Rightarrow> 'px world \<Rightarrow> 'px world" where
  "slam_callback image_data image_record w =
     (let (img, h) = to_numpy_array image_data (heap w)
      in w\<lparr>heap := h, latest_slam := Some img,
            latest_slam_ts := Some (capture_timestamp_ns image_record)\<rparr>)"

fun invoke :: "callback \<Rightarrow> 'px \<Rightarrow> image_data_record \<Rightarrow> 'px world \<Rightarrow> 'px world" where
  "invoke Rgb_callback d r w = rgb_callback d r w"
| "invoke Slam_callback d r w = slam_callback d r w"

subsection \<open>Command line and receiver set-up\<close>

text \<open>
  The namespace returned by \<^verbatim>\<open>parse_args\<close>. Splitting the command line into options is
  the work of \<^verbatim>\<open>argparse\<close>; the script contributes the four \<^verbatim>\<open>add_argument\<close> calls, that is
  the destinations, the defaults and the value types. A command line is therefore taken
  as the list of options given, already split and converted; a later option overrides
  an earlier one with the same destination.
\<close>

record args =
  host :: string
  port :: int
  record_to_vrs :: string
  show_slam :: bool

datatype cli_option = Opt_host string | Opt_port int | Opt_record_to_vrs string | Opt_show_slam

definition parser_defaults :: args where
  "parser_defaults =
     \<lparr>host = ''0.0.0.0'', port = 6768, record_to_vrs = [], show_slam = False\<rparr>"

fun store_option :: "args \<Rightarrow> cli_option \<Rightarrow> args" where
  "store_option a (Opt_host v) = a\<lparr>host := v\<rparr>"
| "store_option a (Opt_port v) = a\<lparr>port := v\<rparr>"
| "store_option a (Opt_record_to_vrs v) = a\<lparr>record_to_vrs := v\<rparr>"
| "store_option a Opt_show_slam = a\<lparr>show_slam := True\<rparr>"

definition parse_args :: "cli_option list \<Rightarrow> args" where
  "parse_args argv = foldl store_option parser_defaults argv"

text \<open>The methods of \<^verbatim>\<open>StreamReceiver\<close> that the script calls.\<close>

definition StreamReceiver :: "bool \<Rightarrow> bool \<Rightarrow> stream_receiver" where
  "StreamReceiver decoding raw =
     \<lparr>enable_image_decoding = decoding, enable_raw_stream = raw, server_config = None,
      vrs_path = None, rgb_cb = None, slam_cb = None, server_started = False\<rparr>"

definition sr_set_server_config :: "string \<times> int \<Rightarrow> stream_receiver \<Rightarrow> stream_receiver" where
  "sr_set_server_config cfg r = r\<lparr>server_config := Some cfg\<rparr>"

definition sr_record_to_vrs :: "string \<Rightarrow> stream_receiver \<Rightarrow> stream_receiver" where
  "sr_record_to_vrs path r = r\<lparr>vrs_path := Some path\<rparr>"

definition sr_register_rgb_callback :: "callback \<Rightarrow> stream_receiver \<Rightarrow> stream_receiver" where
  "sr_register_rgb_callback cb r = r\<lparr>rgb_cb := Some cb\<rparr>"

definition sr_register_slam_callback :: "callback \<Rightarrow> stream_receiver \<Rightarrow> stream_receiver" where
  "sr_register_slam_callback cb r = r\<lparr>slam_cb := Some cb\<rparr>"

definition sr_start_server :: "stream_receiver \<Rightarrow> stream_receiver" where
  "sr_start_server r = r\<lparr>server_started := True\<rparr>"

text \<open>
  \<^verbatim>\<open>build_receiver\<close>. The test \<^verbatim>\<open>if record_to_vrs:\<close> is Python truthiness of a string:
  true exactly when the string is not empty.
\<close>

definition build_receiver :: "string \<Rightarrow> int \<Rightarrow> string \<Rightarrow> stream_receiver" where
  "build_receiver h p vrs =
     (let server_cfg = (h, p);
          r0 = sr_set_server_config server_cfg (StreamReceiver True False);
          r1 = (if vrs \<noteq> [] then sr_record_to_vrs vrs r0 else r0);
          r2 = sr_register_rgb_callback Rgb_callback r1
      in sr_register_slam_callback Slam_callback r2)"

subsection \<open>Formatting\<close>

text \<open>Python's \<^verbatim>\<open>str\<close> of an integer, and of \<^verbatim>\<open>None\<close>, as an f-string inserts them.\<close>

definition digit_char :: "nat \<Rightarrow> char" where
  "digit_char d = char_of (48 + d)"

function str_nat :: "nat \<Rightarrow> string" where
  "str_nat n = (if n < 10 then [digit_char n] else str_nat (n div 10) @ [digit_char (n mod 10)])"
  by pat_completeness auto
termination
  by (relation "measure id") auto

definition str_int :: "int \<Rightarrow> string" where
  "str_int i = (if i < 0 then CHR ''-'' # str_nat (nat (- i)) else str_nat (nat i))"

fun str_opt_int :: "int option \<Rightarrow> string" where
  "str_opt_int None = ''None''"
| "str_opt_int (Some i) = str_int i"

subsection \<open>OpenCV\<close>

text \<open>
  What OpenCV computes on pixel data is not part of the script: the conversion
  \<^verbatim>\<open>COLOR_RGB2BGR\<close> and the drawing of a text (at the fixed position, font, scale, colour
  and thickness of the call) are parameters. The script fixes which array each call reads
  and writes: \<^verbatim>\<open>cvtColor\<close> returns a new array, \<^verbatim>\<open>putText\<close> draws into its argument,
  \<^verbatim>\<open>imshow\<close> only reads. Each of them raises when given \<^verbatim>\<open>None\<close> for the image; on an
  array they are taken to succeed, the decoder delivering the layout the callbacks'
  comments name.
\<close>

record 'px cv2 =
  cvt_RGB2BGR :: "'px \<Rightarrow> 'px"
  draw_text :: "'px \<Rightarrow> string \<Rightarrow> 'px"

definition cvtColor ::
  "'px cv2 \<Rightarrow> addr option \<Rightarrow> 'px world \<Rightarrow> (pyerror \<times> 'px world) + (addr \<times> 'px world)" where
  "cvtColor cv src w =
     (case src of
        None \<Rightarrow> Inl (Cv2Error, w)
      | Some a \<Rightarrow>
          (let (dst, h) = alloc (cvt_RGB2BGR cv (heap w ! a)) (heap w)
           in Inr (dst, w\<lparr>heap := h, out := out w @ [CvtColor a dst]\<rparr>)))"

definition putText ::
  "'px cv2 \<Rightarrow> addr option \<Rightarrow> string \<Rightarrow> 'px world \<Rightarrow> (pyerror \<times> 'px world) + 'px world" where
  "putText cv img txt w =
     (case img of
        None \<Rightarrow> Inl (Cv2Error, w)
      | Some a \<Rightarrow>
          Inr (w\<lparr>heap := (heap w)[a := draw_text cv (heap w ! a) txt],
                 out := out w @ [PutText a txt]\<rparr>))"

definition imshow ::
  "string \<Rightarrow> addr option \<Rightarrow> 'px world \<Rightarrow> (pyerror \<times> 'px world) + 'px world" where
  "imshow winname img w =
     (case img of
        None \<Rightarrow> Inl (Cv2Error, w)
      | Some a \<Rightarrow> Inr (w\<lparr>out := out w @ [ImShow winname a]\<rparr>))"

subsection \<open>The display loop\<close>

text \<open>
  The block under the lock at the head of the loop body (the cache's snapshot operation):
  each image is copied unless it is \<^verbatim>\<open>None\<close>, the timestamps are read as they are.
\<close>

definition copy_or_None :: "addr option \<Rightarrow> 'px list \<Rightarrow> addr option \<times> 'px list" where
  "copy_or_None latest h =
     (case latest of
        None \<Rightarrow> (None, h)
      | Some a \<Rightarrow> (let (c, h') = ndarray_copy a h in (Some c, h')))"

definition get_snapshot :: "'px world \<Rightarrow> 'px world" where
  "get_snapshot w =
     (let (r, h1) = copy_or_None (latest_rgb w) (heap w);
          (s, h2) = copy_or_None (latest_slam w) h1
      in w\<lparr>heap := h2, rgb := r, slam := s,
            rgb_ts := latest_rgb_ts w, slam_ts := latest_slam_ts w\<rparr>)"

text \<open>The statement under \<^verbatim>\<open># Show RGB\<close>.\<close>

definition render_rgb :: "'px cv2 \<Rightarrow> 'px world \<Rightarrow> (pyerror \<times> 'px world) + 'px world" where
  "render_rgb cv w =
     (if rgb w \<noteq> None then
        (case cvtColor cv (rgb w) w of
           Inl e \<Rightarrow> Inl e
         | Inr (rgb_bgr, w1) \<Rightarrow>
             (case putText cv (Some rgb_bgr) (''RGB ts(ns): '' @ str_opt_int (rgb_ts w1)) w1 of
                Inl e \<Rightarrow> Inl e
              | Inr w2 \<Rightarrow> imshow ''Aria RGB (press q to quit)'' (Some rgb_bgr) w2))
      else Inr w)"

text \<open>The statement under \<^verbatim>\<open># Show SLAM (optional)\<close>.\<close>

definition render_slam :: "args \<Rightarrow> 'px world \<Rightarrow> (pyerror \<times> 'px world) + 'px world" where
  "render_slam a w =
     (if show_slam a \<and> slam w \<noteq> None then imshow ''Aria SLAM'' (slam w) w else Inr w)"

definition ord :: "char \<Rightarrow> int" where
  "ord c = of_char c"

text \<open>
  The \<^verbatim>\<open>finally\<close> clause, after which \<^verbatim>\<open>main\<close> is left with the given status; the handler
  of \<^verbatim>\<open>KeyboardInterrupt\<close>, which falls through to it.
\<close>

definition finally_clause :: "exit_status \<Rightarrow> 'px world \<Rightarrow> 'px world" where
  "finally_clause st w =
     w\<lparr>out := out w @ [DestroyAllWindows, Print ''[Receiver] Done.''], phase := Exited st\<rparr>"

definition except_KeyboardInterrupt :: "'px world \<Rightarrow> 'px world" where
  "except_KeyboardInterrupt w =
     finally_clause Returned
       (w\<lparr>out := out w @ [Print (CHR 0x0A # ''[Receiver] KeyboardInterrupt, exiting...'')]\<rparr>)"

text \<open>
  One statement of the loop body, chosen by the phase. \<open>k\<close> is what \<^verbatim>\<open>cv2.waitKey(1)\<close>
  returns if this step is the key poll. An exception other than \<^verbatim>\<open>KeyboardInterrupt\<close>
  is not handled: the \<^verbatim>\<open>finally\<close> clause runs and the exception leaves \<^verbatim>\<open>main\<close>.
\<close>

definition main_step :: "'px cv2 \<Rightarrow> args \<Rightarrow> int \<Rightarrow> 'px world \<Rightarrow> 'px world" where
  "main_step cv a k w =
     (case phase w of
        AtSnapshot \<Rightarrow> (get_snapshot w)\<lparr>phase := AtShowRgb\<rparr>
      | AtShowRgb \<Rightarrow>
          (case render_rgb cv w of
             Inl (e, w') \<Rightarrow> finally_clause (Raised e) w'
           | Inr w' \<Rightarrow> w'\<lparr>phase := AtShowSlam\<rparr>)
      | AtShowSlam \<Rightarrow>
          (case render_slam a w of
             Inl (e, w') \<Rightarrow> finally_clause (Raised e) w'
           | Inr w' \<Rightarrow> w'\<lparr>phase := AtWaitKey\<rparr>)
      | AtWaitKey \<Rightarrow>
          (let w1 = w\<lparr>out := out w @ [WaitKey k]\<rparr>;
               key = k AND 0xFF
           in if key = ord CHR ''q''
              then finally_clause Returned (w1\<lparr>out := out w1 @ [Print ''[Receiver] Quit requested.'']\<rparr>)
              else w1\<lparr>phase := AtSleep\<rparr>)
      | AtSleep \<Rightarrow> w\<lparr>out := out w @ [Sleep], phase := AtSnapshot\<rparr>
      | Exited st \<Rightarrow> w)"

text \<open>
  A \<^verbatim>\<open>KeyboardInterrupt\<close> raised in the main thread while it is inside the
  \<^verbatim>\<open>try\<close> statement, between two statements of the loop body.
\<close>

definition interrupt :: "'px world \<Rightarrow> 'px world" where
  "interrupt w = (case phase w of Exited st \<Rightarrow> w | _ \<Rightarrow> except_KeyboardInterrupt w)"

subsection \<open>Runs\<close>

text \<open>
  Modelled from the spec: the streaming receiver's delivery of frames, which belongs to the
  SDK. Once the server is started, a frame of a stream is handed, with its record, to the
  callback registered for that stream; a frame with no callback registered is dropped.
\<close>

definition deliver :: "stream_id \<Rightarrow> 'px \<Rightarrow> image_data_record \<Rightarrow> 'px world \<Rightarrow> 'px world" where
  "deliver sid d r w =
     (if server_started (sr w) then
        (case (case sid of RGB \<Rightarrow> rgb_cb (sr w) | SLAM \<Rightarrow> slam_cb (sr w)) of
           None \<Rightarrow> w
         | Some cb \<Rightarrow> invoke cb d r w)
      else w)"

text \<open>
  The callbacks run on the SDK's threads and the loop on the main thread. In this first
  view of a run the events are whole callback invocations, single statements of the loop
  body, and an interrupt: it serves for what the program does with a frame once stored and
  for what it shows. That the \<^verbatim>\<open>with _lock\<close> blocks may be taken as single steps is not
  assumed for the consistency of the cache: further down, callbacks and snapshot run
  assignment by assignment with the lock explicit.
\<close>

datatype 'px event = Frame stream_id 'px image_data_record | Step int | KeyboardInterrupt

fun react :: "'px cv2 \<Rightarrow> args \<Rightarrow> 'px event \<Rightarrow> 'px world \<Rightarrow> 'px world" where
  "react cv a (Frame sid d r) w = deliver sid d r w"
| "react cv a (Step k) w = main_step cv a k w"
| "react cv a KeyboardInterrupt w = interrupt w"

fun exec :: "'px cv2 \<Rightarrow> args \<Rightarrow> 'px event list \<Rightarrow> 'px world \<Rightarrow> 'px world" where
  "exec cv a [] w = w"
| "exec cv a (e # es) w = exec cv a es (react cv a e w)"

text \<open>
  \<^verbatim>\<open>main\<close> up to the \<^verbatim>\<open>try\<close> statement: the module's variables are \<^verbatim>\<open>None\<close>, the receiver
  is built and started, two lines are printed.
\<close>

definition main_start :: "args \<Rightarrow> 'px world" where
  "main_start a =
     \<lparr>heap = [], latest_rgb = None, latest_slam = None,
      latest_rgb_ts = None, latest_slam_ts = None,
      sr = sr_start_server (build_receiver (host a) (port a) (record_to_vrs a)),
      rgb = None, slam = None, rgb_ts = None, slam_ts = None,
      phase = AtSnapshot,
      out = [Print (''[Receiver] Starting server on http(s)://'' @ host a @ '':'' @ str_int (port a)),
             Print ''[Receiver] Waiting for device to start streaming...'']\<rparr>"


subsection \<open>The lock: callbacks and snapshot statement by statement\<close>

text \<open>
  The script shares the four module-level variables between the SDK's threads and the main
  thread, and guards every access with \<^verbatim>\<open>_lock\<close>. Here each callback invocation is a
  thread of its own that runs the body of the callback one statement at a time: the
  conversion (outside the lock), entering \<^verbatim>\<open>with _lock\<close>, the assignment of the image, the
  assignment of the timestamp, leaving the block. The main thread runs the block at the
  head of the loop body in the same way: entering, the four assignments in the order of
  the source, leaving. A thread that finds the lock taken does not move. The other
  statements of the loop body do not touch the shared variables and stay single steps.
\<close>

datatype owner = MainThread | SdkThread nat

datatype cb_pc = CbConvert | CbAcquire | CbStoreImage | CbStoreTs | CbRelease | CbDone

text \<open>
  One invocation of a callback: which callback, its two arguments, its local variable
  \<^verbatim>\<open>img\<close> (unset before the conversion), and the statement it is at.
\<close>

record 'px invocation =
  inv_cb :: callback
  inv_image_data :: 'px
  inv_image_record :: image_data_record
  inv_img :: "addr option"
  inv_pc :: cb_pc

datatype snap_pc = SnAcquire | SnRgb | SnSlam | SnRgbTs | SnSlamTs | SnRelease

record 'px system =
  mem :: "'px world"
  lock :: "owner option"
  pool :: "'px invocation list"
  snap :: snap_pc

text \<open>One statement of invocation \<open>i\<close>: lines 22 to 25 of \<^verbatim>\<open>rgb_callback\<close>, 30 to 33 of \<^verbatim>\<open>slam_callback\<close>.\<close>

definition callback_step :: "nat \<Rightarrow> 'px system \<Rightarrow> 'px system" where
  "callback_step i s =
     (if i < length (pool s) then
        (let t = pool s ! i; w = mem s
         in case inv_pc t of
              CbConvert \<Rightarrow>
                (let (a, h) = to_numpy_array (inv_image_data t) (heap w)
                 in s\<lparr>mem := w\<lparr>heap := h\<rparr>,
                      pool := (pool s)[i := t\<lparr>inv_img := Some a, inv_pc := CbAcquire\<rparr>]\<rparr>)
            | CbAcquire \<Rightarrow>
                (if lock s = None
                 then s\<lparr>lock := Some (SdkThread i),
                        pool := (pool s)[i := t\<lparr>inv_pc := CbStoreImage\<rparr>]\<rparr>
                 else s)
            | CbStoreImage \<Rightarrow>
                s\<lparr>mem := (case inv_cb t of
                             Rgb_callback \<Rightarrow> w\<lparr>latest_rgb := inv_img t\<rparr>
                           | Slam_callback \<Rightarrow> w\<lparr>latest_slam := inv_img t\<rparr>),
                  pool := (pool s)[i := t\<lparr>inv_pc := CbStoreTs\<rparr>]\<rparr>
            | CbStoreTs \<Rightarrow>
                s\<lparr>mem := (case inv_cb t of
                             Rgb_callback \<Rightarrow>
                               w\<lparr>latest_rgb_ts := Some (capture_timestamp_ns (inv_image_record t))\<rparr>
                           | Slam_callback \<Rightarrow>
                               w\<lparr>latest_slam_ts := Some (capture_timestamp_ns (inv_image_record t))\<rparr>),
                  pool := (pool s)[i := t\<lparr>inv_pc := CbRelease\<rparr>]\<rparr>
            | CbRelease \<Rightarrow>
                s\<lparr>lock := None, pool := (pool s)[i := t\<lparr>inv_pc := CbDone\<rparr>]\<rparr>
            | CbDone \<Rightarrow> s)
      else s)"

text \<open>
  One statement of the main thread: inside the block of lines 73 to 77 while the phase is
  \<open>AtSnapshot\<close>, a whole statement of the rest of the loop body otherwise.
\<close>

definition main_thread_step :: "'px cv2 \<Rightarrow> args \<Rightarrow> int \<Rightarrow> 'px system \<Rightarrow> 'px system" where
  "main_thread_step cv a k s =
     (let w = mem s
      in if phase w = AtSnapshot then
           (case snap s of
              SnAcquire \<Rightarrow>
                (if lock s = None then s\<lparr>lock := Some MainThread, snap := SnRgb\<rparr> else s)
            | SnRgb \<Rightarrow>
                (let (r, h) = copy_or_None (latest_rgb w) (heap w)
                 in s\<lparr>mem := w\<lparr>heap := h, rgb := r\<rparr>, snap := SnSlam\<rparr>)
            | SnSlam \<Rightarrow>
                (let (x, h) = copy_or_None (latest_slam w) (heap w)
                 in s\<lparr>mem := w\<lparr>heap := h, slam := x\<rparr>, snap := SnRgbTs\<rparr>)
            | SnRgbTs \<Rightarrow> s\<lparr>mem := w\<lparr>rgb_ts := latest_rgb_ts w\<rparr>, snap := SnSlamTs\<rparr>
            | SnSlamTs \<Rightarrow> s\<lparr>mem := w\<lparr>slam_ts := latest_slam_ts w\<rparr>, snap := SnRelease\<rparr>
            | SnRelease \<Rightarrow> s\<lparr>mem := w\<lparr>phase := AtShowRgb\<rparr>, lock := None, snap := SnAcquire\<rparr>)
         else s\<lparr>mem := main_step cv a k w\<rparr>)"

text \<open>
  \<^verbatim>\<open>KeyboardInterrupt\<close> in the main thread. Raised inside the \<^verbatim>\<open>with\<close> block, it leaves the
  block first, which releases the lock.
\<close>

definition signal :: "'px system \<Rightarrow> 'px system" where
  "signal s =
     s\<lparr>mem := interrupt (mem s),
       lock := (if lock s = Some MainThread then None else lock s),
       snap := SnAcquire\<rparr>"

text \<open>
  Modelled from the spec: the streaming receiver hands a frame to the callback registered
  for its stream on a thread of its own, once the server is started.
\<close>

definition spawn :: "stream_id \<Rightarrow> 'px \<Rightarrow> image_data_record \<Rightarrow> 'px system \<Rightarrow> 'px system" where
  "spawn sid d r s =
     (if server_started (sr (mem s)) then
        (case (case sid of RGB \<Rightarrow> rgb_cb (sr (mem s)) | SLAM \<Rightarrow> slam_cb (sr (mem s))) of
           None \<Rightarrow> s
         | Some cb \<Rightarrow>
             s\<lparr>pool := pool s @ [\<lparr>inv_cb = cb, inv_image_data = d, inv_image_record = r,
                                   inv_img = None, inv_pc = CbConvert\<rparr>]\<rparr>)
      else s)"

text \<open>
  A schedule: the SDK delivers a frame, an invocation runs one statement, the main thread
  runs one statement (\<open>k\<close> is what the key poll returns, if it is the key poll), or the
  interrupt arrives.
\<close>

datatype 'px sched = Deliver stream_id 'px image_data_record | RunCallback nat | RunMain int | Signal

fun sys_step :: "'px cv2 \<Rightarrow> args \<Rightarrow> 'px sched \<Rightarrow> 'px system \<Rightarrow> 'px system" where
  "sys_step cv a (Deliver sid d r) s = spawn sid d r s"
| "sys_step cv a (RunCallback i) s = callback_step i s"
| "sys_step cv a (RunMain k) s = main_thread_step cv a k s"
| "sys_step cv a Signal s = signal s"

fun sys_exec :: "'px cv2 \<Rightarrow> args \<Rightarrow> 'px sched list \<Rightarrow> 'px system \<Rightarrow> 'px system" where
  "sys_exec cv a [] s = s"
| "sys_exec cv a (e # es) s = sys_exec cv a es (sys_step cv a e s)"

definition sys_start :: "args \<Rightarrow> 'px system" where
  "sys_start a = \<lparr>mem = main_start a, lock = None, pool = [], snap = SnAcquire\<rparr>"

subsection \<open>Observations\<close>

text \<open>
  The frame record a stream has in the cache, and the one the last snapshot handed to the
  loop: the contents of the array referred to, and the timestamp. \<^verbatim>\<open>None\<close> is the absent
  marker.
\<close>

fun stored :: "stream_id \<Rightarrow> 'px world \<Rightarrow> 'px option \<times> int option" where
  "stored RGB w = (map_option (\<lambda>a. heap w ! a) (latest_rgb w), latest_rgb_ts w)"
| "stored SLAM w = (map_option (\<lambda>a. heap w ! a) (latest_slam w), latest_slam_ts w)"

fun returned :: "stream_id \<Rightarrow> 'px world \<Rightarrow> 'px option \<times> int option" where
  "returned RGB w = (map_option (\<lambda>a. heap w ! a) (rgb w), rgb_ts w)"
| "returned SLAM w = (map_option (\<lambda>a. heap w ! a) (slam w), slam_ts w)"

text \<open>The two slots of the cache: per stream, the reference held and the timestamp.\<close>

definition slots :: "'px world \<Rightarrow> (addr option \<times> int option) \<times> (addr option \<times> int option)" where
  "slots w = ((latest_rgb w, latest_rgb_ts w), (latest_slam w, latest_slam_ts w))"

text \<open>The last frame of a stream in a run, as the pair of image and timestamp put.\<close>

fun last_put :: "stream_id \<Rightarrow> 'px event list \<Rightarrow> ('px \<times> int) option" where
  "last_put sid [] = None"
| "last_put sid (e # es) =
     (case last_put sid es of
        Some p \<Rightarrow> Some p
      | None \<Rightarrow> (case e of
                  Frame s d r \<Rightarrow> if s = sid then Some (d, capture_timestamp_ns r) else None
                | _ \<Rightarrow> None))"

fun record_of :: "('px \<times> int) option \<Rightarrow> 'px option \<times> int option" where
  "record_of None = (None, None)"
| "record_of (Some (d, t)) = (Some d, Some t)"

text \<open>
  References held by the program point to arrays that exist; the receiver is started with
  both callbacks registered.
\<close>

definition refs_ok :: "'px world \<Rightarrow> bool" where
  "refs_ok w \<longleftrightarrow>
     (\<forall>a \<in> set_option (latest_rgb w) \<union> set_option (latest_slam w)
            \<union> set_option (rgb w) \<union> set_option (slam w). a < length (heap w))"

definition serving :: "'px world \<Rightarrow> bool" where
  "serving w \<longleftrightarrow> server_started (sr w) \<and> rgb_cb (sr w) = Some Rgb_callback
     \<and> slam_cb (sr w) = Some Slam_callback"

text \<open>Recognisers for the actions of a trace.\<close>

fun is_rgb_show :: "action \<Rightarrow> bool" where
  "is_rgb_show (ImShow n x) = (n = ''Aria RGB (press q to quit)'')"
| "is_rgb_show _ = False"

fun is_slam_show :: "action \<Rightarrow> bool" where
  "is_slam_show (ImShow n x) = (n = ''Aria SLAM'')"
| "is_slam_show _ = False"

fun is_poll :: "action \<Rightarrow> bool" where
  "is_poll (WaitKey k) = True"
| "is_poll _ = False"

text \<open>
  Events of a run in which the SLAM stream stays absent and no interrupt arrives: RGB frames
  and statements of the loop. The invariant of such a run, once an RGB frame is there: each
  key poll so far was preceded by one image in the RGB window, the one of its iteration.
\<close>

fun rgb_only_event :: "'px event \<Rightarrow> bool" where
  "rgb_only_event (Frame SLAM d r) = False"
| "rgb_only_event KeyboardInterrupt = False"
| "rgb_only_event _ = True"

definition rgb_only_inv :: "'px world \<Rightarrow> bool" where
  "rgb_only_inv w \<longleftrightarrow>
     serving w \<and> latest_rgb w \<noteq> None \<and> latest_slam w = None \<and> slam w = None
     \<and> (phase w = AtShowRgb \<longrightarrow> rgb w \<noteq> None)
     \<and> length (filter is_rgb_show (out w))
         = length (filter is_poll (out w)) + (if phase w = AtShowSlam \<or> phase w = AtWaitKey then 1 else 0)
     \<and> \<not> list_ex is_slam_show (out w)"

text \<open>A state with the images shown in the SLAM window removed from its trace.\<close>

definition hide_slam :: "'px world \<Rightarrow> 'px world" where
  "hide_slam w = w\<lparr>out := filter (\<lambda>x. \<not> is_slam_show x) (out w)\<rparr>"




text \<open>Sample inputs: pixel data as lists of numbers, with stand-ins for the two OpenCV functions.\<close>

definition cv_sample :: "nat list cv2" where
  "cv_sample = \<lparr>cvt_RGB2BGR = rev, draw_text = (\<lambda>p t. 0 # p)\<rparr>"

definition rec_ns :: "int \<Rightarrow> image_data_record" where
  "rec_ns t = \<lparr>capture_timestamp_ns = t\<rparr>"

subsection \<open>Consistency of the cache under the lock\<close>

text \<open>
  A frame record that is absent, or is the image and the timestamp of one and the same
  frame delivered in the schedule.
\<close>

definition from_one_put :: "stream_id \<Rightarrow> 'px sched list \<Rightarrow> 'px option \<times> int option \<Rightarrow> bool" where
  "from_one_put sid es p \<longleftrightarrow>
     p = (None, None)
     \<or> (\<exists>d r. Deliver sid d r \<in> set es \<and> p = (Some d, Some (capture_timestamp_ns r)))"

fun cb_of :: "stream_id \<Rightarrow> callback" where
  "cb_of RGB = Rgb_callback"
| "cb_of SLAM = Slam_callback"

fun latest :: "stream_id \<Rightarrow> 'px world \<Rightarrow> addr option" where
  "latest RGB w = latest_rgb w"
| "latest SLAM w = latest_slam w"

text \<open>
  Every invocation stems from a delivery of the schedule to the callback of its stream; past
  the conversion its \<^verbatim>\<open>img\<close> is an array holding the payload; it is inside the \<^verbatim>\<open>with\<close> block
  exactly when it owns the lock.
\<close>

definition pool_ok :: "'px sched list \<Rightarrow> 'px system \<Rightarrow> bool" where
  "pool_ok es s \<longleftrightarrow>
     (\<forall>i < length (pool s).
        (\<exists>sid. Deliver sid (inv_image_data (pool s ! i)) (inv_image_record (pool s ! i)) \<in> set es
               \<and> inv_cb (pool s ! i) = cb_of sid)
        \<and> (inv_pc (pool s ! i) \<noteq> CbConvert \<longrightarrow>
             (\<exists>x. inv_img (pool s ! i) = Some x \<and> x < length (heap (mem s))
                  \<and> heap (mem s) ! x = inv_image_data (pool s ! i)))
        \<and> ((inv_pc (pool s ! i) = CbStoreImage \<or> inv_pc (pool s ! i) = CbStoreTs
              \<or> inv_pc (pool s ! i) = CbRelease) \<longleftrightarrow> lock s = Some (SdkThread i)))"

text \<open>The main thread owns the lock exactly when it is inside its \<^verbatim>\<open>with\<close> block.\<close>

definition main_ok :: "'px system \<Rightarrow> bool" where
  "main_ok s \<longleftrightarrow>
     (lock s = Some MainThread \<longleftrightarrow> phase (mem s) = AtSnapshot \<and> snap s \<noteq> SnAcquire)
     \<and> (phase (mem s) \<noteq> AtSnapshot \<longrightarrow> snap s = SnAcquire)
     \<and> (\<forall>i. lock s = Some (SdkThread i) \<longrightarrow> i < length (pool s))"

text \<open>
  A slot holds the record of one put, except while an invocation for its stream stands
  between its two assignments; then the slot's image is that invocation's.
\<close>

definition writing :: "stream_id \<Rightarrow> 'px system \<Rightarrow> bool" where
  "writing sid s \<longleftrightarrow>
     (\<exists>i < length (pool s). inv_pc (pool s ! i) = CbStoreTs \<and> inv_cb (pool s ! i) = cb_of sid)"

definition slot_ok :: "stream_id \<Rightarrow> 'px sched list \<Rightarrow> 'px system \<Rightarrow> bool" where
  "slot_ok sid es s \<longleftrightarrow>
     (\<forall>i < length (pool s).
        inv_pc (pool s ! i) = CbStoreTs \<and> inv_cb (pool s ! i) = cb_of sid
        \<longrightarrow> latest sid (mem s) = inv_img (pool s ! i))
     \<and> (\<not> writing sid s \<longrightarrow> from_one_put sid es (stored sid (mem s)))"

text \<open>
  What the main thread holds of a stream: in the loop and outside its block, the record of
  one put; inside the block, the parts already read agree with the slot. (An interrupt
  inside the block leaves the loop with the variables as they were at that moment; they are
  not used again.)
\<close>

fun image_read :: "stream_id \<Rightarrow> snap_pc \<Rightarrow> bool" where
  "image_read RGB pc = (pc = SnSlam \<or> pc = SnRgbTs \<or> pc = SnSlamTs \<or> pc = SnRelease)"
| "image_read SLAM pc = (pc = SnRgbTs \<or> pc = SnSlamTs \<or> pc = SnRelease)"

fun ts_read :: "stream_id \<Rightarrow> snap_pc \<Rightarrow> bool" where
  "ts_read RGB pc = (pc = SnSlamTs \<or> pc = SnRelease)"
| "ts_read SLAM pc = (pc = SnRelease)"

definition local_ok :: "stream_id \<Rightarrow> 'px sched list \<Rightarrow> 'px system \<Rightarrow> bool" where
  "local_ok sid es s \<longleftrightarrow>
     (if lock s = Some MainThread then
        (image_read sid (snap s) \<longrightarrow> fst (returned sid (mem s)) = fst (stored sid (mem s)))
        \<and> (ts_read sid (snap s) \<longrightarrow> snd (returned sid (mem s)) = snd (stored sid (mem s)))
      else (\<forall>st. phase (mem s) \<noteq> Exited st) \<longrightarrow> from_one_put sid es (returned sid (mem s)))"

definition lock_inv :: "'px sched list \<Rightarrow> 'px system \<Rightarrow> bool" where
  "lock_inv es s \<longleftrightarrow>
     serving (mem s) \<and> refs_ok (mem s) \<and> pool_ok es s \<and> main_ok s
     \<and> (\<forall>sid. slot_ok sid es s \<and> local_ok sid es s)"

text \<open>
  A sample schedule: a first RGB frame is stored; the main thread enters its block and reads
  the image; a second RGB frame arrives, is converted, and its invocation tries to enter;
  the main thread reads the rest and leaves; the second invocation then stores its frame.
\<close>

definition sched_sample :: "nat list sched list" where
  "sched_sample =
     [Deliver RGB [1, 2, 3] (rec_ns 100),
      RunCallback 0, RunCallback 0, RunCallback 0, RunCallback 0, RunCallback 0,
      RunMain 0, RunMain 0,
      Deliver RGB [4, 5, 6] (rec_ns 200), RunCallback 1, RunCallback 1,
      RunMain 0, RunMain 0, RunMain 0, RunMain 0,
      RunCallback 1, RunCallback 1, RunCallback 1, RunCallback 1]"

text \<open>
  A second one: the first frame is stored; the invocation for the second frame has assigned
  its image and not yet its timestamp when the main thread tries to enter its block, twice;
  the invocation finishes, and the main thread then runs its block.
\<close>

definition sched_midwrite :: "nat list sched list" where
  "sched_midwrite =
     [Deliver RGB [1, 2, 3] (rec_ns 100),
      RunCallback 0, RunCallback 0, RunCallback 0, RunCallback 0, RunCallback 0,
      Deliver RGB [4, 5, 6] (rec_ns 200), RunCallback 1, RunCallback 1, RunCallback 1,
      RunMain 0, RunMain 0,
      RunCallback 1, RunCallback 1,
      RunMain 0, RunMain 0, RunMain 0, RunMain 0, RunMain 0, RunMain 0]"

section \<open>Properties\<close>

subsection \<open>Effect of each operation on the state\<close>

lemma exec_snoc: "exec cv a (es @ [e]) w = react cv a e (exec cv a es w)"
  by (induction es arbitrary: w) simp_all

lemma exec_append: "exec cv a (es @ es') w = exec cv a es' (exec cv a es w)"
  by (induction es arbitrary: w) simp_all

lemma last_put_snoc:
  "last_put sid (es @ [e]) =
     (case e of Frame s d r \<Rightarrow> if s = sid then Some (d, capture_timestamp_ns r) else last_put sid es
      | _ \<Rightarrow> last_put sid es)"
  by (induction es) (auto split: event.splits option.splits)

lemmas cv2_defs = cvtColor_def putText_def imshow_def alloc_def

lemma render_rgb_cases:
  "render_rgb cv w = Inr w \<and> rgb w = None \<or>
   (\<exists>a. rgb w = Some a \<and> render_rgb cv w =
      Inr (w\<lparr>heap := heap w @ [draw_text cv (cvt_RGB2BGR cv (heap w ! a)) (''RGB ts(ns): '' @ str_opt_int (rgb_ts w))],
             out := out w @ [CvtColor a (length (heap w)), PutText (length (heap w)) (''RGB ts(ns): '' @ str_opt_int (rgb_ts w)),
                             ImShow ''Aria RGB (press q to quit)'' (length (heap w))]\<rparr>))"
  by (cases "rgb w") (simp_all add: render_rgb_def cv2_defs)

lemma render_slam_cases:
  "render_slam a w = (if show_slam a \<and> slam w \<noteq> None then Inr (w\<lparr>out := out w @ [ImShow ''Aria SLAM'' (the (slam w))]\<rparr>) else Inr w)"
  by (cases "slam w") (simp_all add: render_slam_def cv2_defs)

lemma get_snapshot_fields [simp]:
  "latest_rgb (get_snapshot w) = latest_rgb w"
  "latest_slam (get_snapshot w) = latest_slam w"
  "latest_rgb_ts (get_snapshot w) = latest_rgb_ts w"
  "latest_slam_ts (get_snapshot w) = latest_slam_ts w"
  "sr (get_snapshot w) = sr w"
  "out (get_snapshot w) = out w"
  "phase (get_snapshot w) = phase w"
  "rgb_ts (get_snapshot w) = latest_rgb_ts w"
  "slam_ts (get_snapshot w) = latest_slam_ts w"
  by (simp_all add: get_snapshot_def copy_or_None_def ndarray_copy_def alloc_def split: option.splits prod.splits)

lemma get_snapshot_heap: "\<exists>ys. heap (get_snapshot w) = heap w @ ys"
  by (simp add: get_snapshot_def copy_or_None_def ndarray_copy_def alloc_def split: option.splits prod.splits)

lemma main_step_globals [simp]:
  "latest_rgb (main_step cv a k w) = latest_rgb w"
  "latest_slam (main_step cv a k w) = latest_slam w"
  "latest_rgb_ts (main_step cv a k w) = latest_rgb_ts w"
  "latest_slam_ts (main_step cv a k w) = latest_slam_ts w"
  "sr (main_step cv a k w) = sr w"
  using render_rgb_cases [of cv w]
  by (auto simp: main_step_def render_slam_cases finally_clause_def Let_def split: phase.splits)

lemma main_step_heap: "\<exists>ys. heap (main_step cv a k w) = heap w @ ys"
  using render_rgb_cases [of cv w] get_snapshot_heap [of w]
  by (auto simp: main_step_def render_slam_cases finally_clause_def Let_def split: phase.splits)

lemma interrupt_fields [simp]:
  "latest_rgb (interrupt w) = latest_rgb w"
  "latest_slam (interrupt w) = latest_slam w"
  "latest_rgb_ts (interrupt w) = latest_rgb_ts w"
  "latest_slam_ts (interrupt w) = latest_slam_ts w"
  "sr (interrupt w) = sr w"
  "heap (interrupt w) = heap w"
  "rgb (interrupt w) = rgb w"
  "slam (interrupt w) = slam w"
  "rgb_ts (interrupt w) = rgb_ts w"
  "slam_ts (interrupt w) = slam_ts w"
  by (simp_all add: interrupt_def except_KeyboardInterrupt_def finally_clause_def split: phase.splits)

lemma callback_fields [simp]:
  "heap (rgb_callback d r w) = heap w @ [d]"
  "latest_rgb (rgb_callback d r w) = Some (length (heap w))"
  "latest_rgb_ts (rgb_callback d r w) = Some (capture_timestamp_ns r)"
  "latest_slam (rgb_callback d r w) = latest_slam w"
  "latest_slam_ts (rgb_callback d r w) = latest_slam_ts w"
  "heap (slam_callback d r w) = heap w @ [d]"
  "latest_slam (slam_callback d r w) = Some (length (heap w))"
  "latest_slam_ts (slam_callback d r w) = Some (capture_timestamp_ns r)"
  "latest_rgb (slam_callback d r w) = latest_rgb w"
  "latest_rgb_ts (slam_callback d r w) = latest_rgb_ts w"
  by (simp_all add: rgb_callback_def slam_callback_def to_numpy_array_def alloc_def)

lemma callback_locals [simp]:
  "sr (rgb_callback d r w) = sr w" "out (rgb_callback d r w) = out w"
  "phase (rgb_callback d r w) = phase w" "rgb (rgb_callback d r w) = rgb w"
  "slam (rgb_callback d r w) = slam w" "rgb_ts (rgb_callback d r w) = rgb_ts w"
  "slam_ts (rgb_callback d r w) = slam_ts w"
  "sr (slam_callback d r w) = sr w" "out (slam_callback d r w) = out w"
  "phase (slam_callback d r w) = phase w" "rgb (slam_callback d r w) = rgb w"
  "slam (slam_callback d r w) = slam w" "rgb_ts (slam_callback d r w) = rgb_ts w"
  "slam_ts (slam_callback d r w) = slam_ts w"
  by (simp_all add: rgb_callback_def slam_callback_def to_numpy_array_def alloc_def)

lemma invoke_fields [simp]:
  "sr (invoke cb d r w) = sr w" "out (invoke cb d r w) = out w"
  "phase (invoke cb d r w) = phase w" "rgb (invoke cb d r w) = rgb w"
  "slam (invoke cb d r w) = slam w" "rgb_ts (invoke cb d r w) = rgb_ts w"
  "slam_ts (invoke cb d r w) = slam_ts w" "heap (invoke cb d r w) = heap w @ [d]"
  by (cases cb; simp)+

lemma deliver_serving:
  "serving w \<Longrightarrow> deliver sid d r w = (case sid of RGB \<Rightarrow> rgb_callback d r w | SLAM \<Rightarrow> slam_callback d r w)"
  by (cases sid) (simp_all add: deliver_def serving_def)

lemma sr_deliver [simp]: "sr (deliver sid d r w) = sr w"
  by (cases sid) (auto simp: deliver_def split: option.splits)

lemma sr_react [simp]: "sr (react cv a e w) = sr w"
  by (cases e) simp_all

lemma sr_exec [simp]: "sr (exec cv a es w) = sr w"
  by (induction es arbitrary: w) simp_all

lemma serving_main_start: "serving (main_start a)"
  by (simp add: serving_def main_start_def build_receiver_def sr_start_server_def
      sr_register_slam_callback_def sr_register_rgb_callback_def sr_record_to_vrs_def
      sr_set_server_config_def StreamReceiver_def Let_def)

lemma serving_exec: "serving (exec cv a es (main_start a))"
  using serving_main_start [of a] by (simp add: serving_def)

text \<open>Every step keeps the arrays that exist.\<close>

lemma react_heap: "\<exists>ys. heap (react cv a e w) = heap w @ ys"
proof (cases e)
  case (Frame sid d r)
  then show ?thesis
    by (cases sid) (auto simp: deliver_def split: option.splits)
next
  case (Step k)
  then show ?thesis using main_step_heap [of cv a k w] by simp
next
  case KeyboardInterrupt
  then show ?thesis by simp
qed

lemma get_snapshot_locals:
  "rgb (get_snapshot w) = map_option (\<lambda>_. length (heap w)) (latest_rgb w)"
  "slam (get_snapshot w) = map_option (\<lambda>_. length (heap w) + (if latest_rgb w = None then 0 else 1)) (latest_slam w)"
  by (simp_all add: get_snapshot_def copy_or_None_def ndarray_copy_def alloc_def split: option.splits prod.splits)

lemma get_snapshot_heap_eq:
  "heap (get_snapshot w) = heap w @ map (\<lambda>a. heap w ! a) (case latest_rgb w of None \<Rightarrow> [] | Some a \<Rightarrow> [a])
      @ (case latest_slam w of None \<Rightarrow> [] | Some b \<Rightarrow> [(heap w @ map (\<lambda>a. heap w ! a) (case latest_rgb w of None \<Rightarrow> [] | Some a \<Rightarrow> [a])) ! b])"
  by (simp_all add: get_snapshot_def copy_or_None_def ndarray_copy_def alloc_def split: option.splits prod.splits)

lemma returned_get_snapshot:
  "refs_ok w \<Longrightarrow> returned sid (get_snapshot w) = stored sid w"
  by (cases sid) (auto simp: refs_ok_def get_snapshot_locals get_snapshot_heap_eq nth_append split: option.splits)


lemma content_append:
  "\<forall>a \<in> set_option x. a < length h \<Longrightarrow> map_option (\<lambda>a. (h @ ys) ! a) x = map_option (\<lambda>a. h ! a) x"
  by (cases x) (simp_all add: nth_append)

lemma main_step_locals:
  "rgb (main_step cv a k w) = (if phase w = AtSnapshot then rgb (get_snapshot w) else rgb w)"
  "slam (main_step cv a k w) = (if phase w = AtSnapshot then slam (get_snapshot w) else slam w)"
  "rgb_ts (main_step cv a k w) = (if phase w = AtSnapshot then latest_rgb_ts w else rgb_ts w)"
  "slam_ts (main_step cv a k w) = (if phase w = AtSnapshot then latest_slam_ts w else slam_ts w)"
  using render_rgb_cases [of cv w]
  by (auto simp: main_step_def render_slam_cases finally_clause_def Let_def split: phase.splits)

lemma refs_ok_get_snapshot: "refs_ok w \<Longrightarrow> refs_ok (get_snapshot w)"
  by (auto simp: refs_ok_def get_snapshot_locals get_snapshot_heap_eq split: option.splits)

lemma main_step_AtSnapshot:
  "phase w = AtSnapshot \<Longrightarrow> main_step cv a k w = (get_snapshot w)\<lparr>phase := AtShowRgb\<rparr>"
  by (simp add: main_step_def)

lemma refs_ok_main_step: "refs_ok w \<Longrightarrow> refs_ok (main_step cv a k w)"
proof (cases "phase w = AtSnapshot")
  case True
  assume "refs_ok w"
  then have "refs_ok (get_snapshot w)" by (rule refs_ok_get_snapshot)
  with True show ?thesis by (simp add: main_step_AtSnapshot refs_ok_def)
next
  case False
  assume "refs_ok w"
  with False main_step_heap [of cv a k w] show ?thesis
    by (auto simp: refs_ok_def main_step_locals)
qed

lemma refs_ok_invoke: "refs_ok w \<Longrightarrow> refs_ok (invoke cb d r w)"
  by (cases cb) (auto simp: refs_ok_def less_Suc_eq)

lemma refs_ok_deliver: "refs_ok w \<Longrightarrow> refs_ok (deliver sid d r w)"
  by (cases sid) (auto simp: deliver_def refs_ok_invoke split: option.splits)

lemma refs_ok_react: "refs_ok w \<Longrightarrow> refs_ok (react cv a e w)"
  by (cases e) (auto simp: refs_ok_main_step refs_ok_deliver, simp add: refs_ok_def)

lemma refs_ok_exec: "refs_ok w \<Longrightarrow> refs_ok (exec cv a es w)"
  by (induction es arbitrary: w) (simp_all add: refs_ok_react)

lemma refs_ok_main_start: "refs_ok (main_start a)"
  by (simp add: refs_ok_def main_start_def)

lemma stored_main_step: "refs_ok w \<Longrightarrow> stored sid (main_step cv a k w) = stored sid w"
proof -
  assume ok: "refs_ok w"
  obtain ys where h: "heap (main_step cv a k w) = heap w @ ys"
    using main_step_heap [of cv a k w] by blast
  from ok show ?thesis
    by (cases sid) (simp_all add: h refs_ok_def content_append)
qed

lemma returned_main_step:
  "refs_ok w \<Longrightarrow> returned sid (main_step cv a k w) = (if phase w = AtSnapshot then stored sid w else returned sid w)"
proof (cases "phase w = AtSnapshot")
  case True
  assume "refs_ok w"
  then have "returned sid (get_snapshot w) = stored sid w" by (rule returned_get_snapshot)
  with True show ?thesis by (cases sid) (simp_all add: main_step_AtSnapshot)
next
  case False
  assume ok: "refs_ok w"
  obtain ys where h: "heap (main_step cv a k w) = heap w @ ys"
    using main_step_heap [of cv a k w] by blast
  from ok False show ?thesis
    by (cases sid) (simp_all add: h refs_ok_def content_append main_step_locals)
qed

lemma stored_interrupt [simp]: "stored sid (interrupt w) = stored sid w"
  by (cases sid) simp_all

lemma returned_interrupt [simp]: "returned sid (interrupt w) = returned sid w"
  by (cases sid) simp_all

lemma stored_callback:
  "stored RGB (rgb_callback d r w) = (Some d, Some (capture_timestamp_ns r))"
  "stored SLAM (slam_callback d r w) = (Some d, Some (capture_timestamp_ns r))"
  "refs_ok w \<Longrightarrow> stored SLAM (rgb_callback d r w) = stored SLAM w"
  "refs_ok w \<Longrightarrow> stored RGB (slam_callback d r w) = stored RGB w"
  by (simp_all add: refs_ok_def content_append)

lemma returned_callback:
  "refs_ok w \<Longrightarrow> returned sid (rgb_callback d r w) = returned sid w"
  "refs_ok w \<Longrightarrow> returned sid (slam_callback d r w) = returned sid w"
  by (cases sid; simp add: refs_ok_def content_append)+

lemma stored_exec:
  "stored sid (exec cv a es (main_start a)) = record_of (last_put sid es)"
proof (induction es rule: rev_induct)
  case Nil
  show ?case by (cases sid) (simp_all add: main_start_def)
next
  case (snoc e es)
  let ?w = "exec cv a es (main_start a)"
  have ok: "refs_ok ?w" by (simp add: refs_ok_exec refs_ok_main_start)
  have sv: "serving ?w" by (rule serving_exec)
  show ?case
  proof (cases e)
    case (Frame s d r)
    with snoc ok sv show ?thesis
      by (cases s; cases sid)
        (simp_all add: exec_snoc last_put_snoc deliver_serving stored_callback del: stored.simps)
  next
    case (Step k)
    with snoc ok show ?thesis
      by (simp add: exec_snoc last_put_snoc stored_main_step)
  next
    case KeyboardInterrupt
    with snoc show ?thesis
      by (simp add: exec_snoc last_put_snoc)
  qed
qed

lemma stored_get_snapshot_any:
  "\<forall>a \<in> set_option (latest_rgb w) \<union> set_option (latest_slam w). a < length (heap w)
   \<Longrightarrow> returned sid (get_snapshot w) = stored sid w"
  by (cases sid) (auto simp: get_snapshot_locals get_snapshot_heap_eq nth_append split: option.splits)

lemma exec_heap: "\<exists>ys. heap (exec cv a es w) = heap w @ ys"
proof (induction es arbitrary: w)
  case Nil
  show ?case by simp
next
  case (Cons e es)
  obtain ys where 1: "heap (react cv a e w) = heap w @ ys" using react_heap by blast
  obtain zs where 2: "heap (exec cv a es (react cv a e w)) = heap (react cv a e w) @ zs"
    using Cons by blast
  show ?case by (simp add: 1 2)
qed

lemma stored_after_both:
  "stored sid (slam_callback b rb (rgb_callback a ra w))
     = (case sid of RGB \<Rightarrow> (Some a, Some (capture_timestamp_ns ra))
                  | SLAM \<Rightarrow> (Some b, Some (capture_timestamp_ns rb)))"
  "stored sid (rgb_callback a ra (slam_callback b rb w))
     = (case sid of RGB \<Rightarrow> (Some a, Some (capture_timestamp_ns ra))
                  | SLAM \<Rightarrow> (Some b, Some (capture_timestamp_ns rb)))"
  by (cases sid; simp add: nth_append)+

lemma latest_ok_after_both:
  "\<forall>x \<in> set_option (latest_rgb (slam_callback b rb (rgb_callback a ra w)))
        \<union> set_option (latest_slam (slam_callback b rb (rgb_callback a ra w))).
      x < length (heap (slam_callback b rb (rgb_callback a ra w)))"
  "\<forall>x \<in> set_option (latest_rgb (rgb_callback a ra (slam_callback b rb w)))
        \<union> set_option (latest_slam (rgb_callback a ra (slam_callback b rb w))).
      x < length (heap (rgb_callback a ra (slam_callback b rb w)))"
  by simp_all

text \<open>The ten digits.\<close>

lemma digit_char_simps:
  "digit_char 0 = CHR ''0''" "digit_char 1 = CHR ''1''" "digit_char 2 = CHR ''2''"
  "digit_char 3 = CHR ''3''" "digit_char 4 = CHR ''4''" "digit_char 5 = CHR ''5''"
  "digit_char 6 = CHR ''6''" "digit_char 7 = CHR ''7''" "digit_char 8 = CHR ''8''"
  "digit_char 9 = CHR ''9''" "digit_char (Suc 0) = CHR ''1''"
  by code_simp+

text \<open>The definitions that evaluate a run on given inputs.\<close>

lemmas run_defs = main_start_def build_receiver_def sr_start_server_def
  sr_register_slam_callback_def sr_register_rgb_callback_def sr_record_to_vrs_def
  sr_set_server_config_def StreamReceiver_def deliver_def rgb_callback_def slam_callback_def
  to_numpy_array_def alloc_def get_snapshot_def copy_or_None_def ndarray_copy_def
  main_step_def render_rgb_def render_slam_def cvtColor_def putText_def imshow_def
  finally_clause_def except_KeyboardInterrupt_def interrupt_def parser_defaults_def
  cv_sample_def rec_ns_def Let_def ord_def str_int_def digit_char_simps

subsection \<open>The statements of the loop, phase by phase\<close>

lemma main_step_AtShowRgb:
  "phase w = AtShowRgb \<Longrightarrow> main_step cv a k w =
     (case rgb w of
        None \<Rightarrow> w\<lparr>phase := AtShowSlam\<rparr>
      | Some x \<Rightarrow>
          w\<lparr>heap := heap w @ [draw_text cv (cvt_RGB2BGR cv (heap w ! x)) (''RGB ts(ns): '' @ str_opt_int (rgb_ts w))],
            out := out w @ [CvtColor x (length (heap w)),
                            PutText (length (heap w)) (''RGB ts(ns): '' @ str_opt_int (rgb_ts w)),
                            ImShow ''Aria RGB (press q to quit)'' (length (heap w))],
            phase := AtShowSlam\<rparr>)"
  using render_rgb_cases [of cv w] by (auto simp: main_step_def)

lemma main_step_AtShowSlam:
  "phase w = AtShowSlam \<Longrightarrow> main_step cv a k w =
     (if show_slam a \<and> slam w \<noteq> None
      then w\<lparr>out := out w @ [ImShow ''Aria SLAM'' (the (slam w))], phase := AtWaitKey\<rparr>
      else w\<lparr>phase := AtWaitKey\<rparr>)"
  by (simp add: main_step_def render_slam_cases)

lemma main_step_AtWaitKey:
  "phase w = AtWaitKey \<Longrightarrow> main_step cv a k w =
     (if k AND 0xFF = ord CHR ''q''
      then w\<lparr>out := out w @ [WaitKey k, Print ''[Receiver] Quit requested.'',
                              DestroyAllWindows, Print ''[Receiver] Done.''],
             phase := Exited Returned\<rparr>
      else w\<lparr>out := out w @ [WaitKey k], phase := AtSleep\<rparr>)"
  by (simp add: main_step_def finally_clause_def Let_def)

lemma main_step_AtSleep:
  "phase w = AtSleep \<Longrightarrow> main_step cv a k w = w\<lparr>out := out w @ [Sleep], phase := AtSnapshot\<rparr>"
  by (simp add: main_step_def)

lemma main_step_Exited:
  "phase w = Exited st \<Longrightarrow> main_step cv a k w = w"
  by (simp add: main_step_def)

lemma interrupt_running:
  "\<forall>st. phase w \<noteq> Exited st \<Longrightarrow> interrupt w =
     w\<lparr>out := out w @ [Print (CHR 0x0A # ''[Receiver] KeyboardInterrupt, exiting...''),
                       DestroyAllWindows, Print ''[Receiver] Done.''],
       phase := Exited Returned\<rparr>"
  by (cases "phase w") (simp_all add: interrupt_def except_KeyboardInterrupt_def finally_clause_def)

lemma interrupt_Exited: "phase w = Exited st \<Longrightarrow> interrupt w = w"
  by (simp add: interrupt_def)

lemmas main_step_phase = main_step_AtSnapshot main_step_AtShowRgb main_step_AtShowSlam
  main_step_AtWaitKey main_step_AtSleep main_step_Exited

subsection \<open>What a step adds to the trace\<close>

lemma main_step_out:
  "\<exists>acts. out (main_step cv a k w) = out w @ acts
     \<and> ((\<exists>x. ImShow ''Aria SLAM'' x \<in> set acts) \<longleftrightarrow> phase w = AtShowSlam \<and> show_slam a \<and> slam w \<noteq> None)"
  by (cases "phase w") (auto simp: main_step_phase split: option.splits)

lemma deliver_out [simp]: "out (deliver sid d r w) = out w"
  by (cases sid) (auto simp: deliver_def split: option.splits)

lemma deliver_phase [simp]: "phase (deliver sid d r w) = phase w"
  by (cases sid) (auto simp: deliver_def split: option.splits)

lemma interrupt_out:
  "\<exists>acts. out (interrupt w) = out w @ acts \<and> (\<forall>n x. ImShow n x \<notin> set acts)"
  by (cases "phase w") (simp_all add: interrupt_def except_KeyboardInterrupt_def finally_clause_def)

lemma react_out:
  "\<exists>acts. out (react cv a e w) = out w @ acts
     \<and> (\<forall>x. ImShow ''Aria SLAM'' x \<in> set acts \<longrightarrow> show_slam a)
     \<and> (\<forall>n x. ImShow n x \<in> set acts \<longrightarrow> n = ''Aria SLAM'' \<or> n = ''Aria RGB (press q to quit)'')"
proof (cases e)
  case (Frame s d r)
  then show ?thesis by simp
next
  case (Step k)
  then show ?thesis by (cases "phase w") (auto simp: main_step_phase split: option.splits)
next
  case KeyboardInterrupt
  then show ?thesis using interrupt_out [of w] by auto
qed

lemma shows_in_run:
  "ImShow n x \<in> set (out (exec cv a es (main_start a)))
   \<Longrightarrow> n = ''Aria RGB (press q to quit)'' \<or> (n = ''Aria SLAM'' \<and> show_slam a)"
proof (induction es arbitrary: n x rule: rev_induct)
  case Nil
  then show ?case by (simp add: main_start_def)
next
  case (snoc e es)
  obtain acts where
    o: "out (react cv a e (exec cv a es (main_start a))) = out (exec cv a es (main_start a)) @ acts"
    and s: "\<forall>x. ImShow ''Aria SLAM'' x \<in> set acts \<longrightarrow> show_slam a"
    and t: "\<forall>n x. ImShow n x \<in> set acts \<longrightarrow> n = ''Aria SLAM'' \<or> n = ''Aria RGB (press q to quit)''"
    using react_out [of cv a e "exec cv a es (main_start a)"] by blast
  from snoc.prems have "ImShow n x \<in> set (out (exec cv a es (main_start a))) \<or> ImShow n x \<in> set acts"
    by (simp add: exec_snoc o)
  then show ?case
  proof
    assume "ImShow n x \<in> set (out (exec cv a es (main_start a)))"
    then show ?thesis by (rule snoc.IH)
  next
    assume "ImShow n x \<in> set acts"
    with s t show ?thesis by blast
  qed
qed

lemma exit_status_react:
  assumes "phase (react cv a e w) = Exited st"
  shows "(phase w = Exited st \<and> out (react cv a e w) = out w)
         \<or> (st = Returned \<and> (\<forall>st'. phase w \<noteq> Exited st')
              \<and> (\<exists>pre. out (react cv a e w) = pre @ [DestroyAllWindows, Print ''[Receiver] Done.'']
                        \<and> DestroyAllWindows \<notin> set pre - set (out w)))"
proof (cases e)
  case (Frame s d r)
  with assms show ?thesis by simp
next
  case (Step k)
  with assms show ?thesis
    by (cases "phase w") (auto simp: main_step_phase split: option.splits if_splits)
next
  case KeyboardInterrupt
  with assms show ?thesis
    by (cases "phase w") (auto simp: interrupt_def except_KeyboardInterrupt_def finally_clause_def)
qed

lemma running_react:
  assumes "\<forall>st. phase (react cv a e w) \<noteq> Exited st"
  shows "(\<forall>st. phase w \<noteq> Exited st)
         \<and> (\<exists>acts. out (react cv a e w) = out w @ acts \<and> DestroyAllWindows \<notin> set acts)"
proof (cases e)
  case (Frame s d r)
  with assms show ?thesis by simp
next
  case (Step k)
  with assms show ?thesis
    by (cases "phase w") (auto simp: main_step_phase split: option.splits if_splits)
next
  case KeyboardInterrupt
  with assms show ?thesis
    by (cases "phase w") (auto simp: interrupt_def except_KeyboardInterrupt_def finally_clause_def)
qed

text \<open>The windows are destroyed exactly when \<^verbatim>\<open>main\<close> has left the \<^verbatim>\<open>try\<close> statement.\<close>

lemma teardown_in_run:
  "case phase (exec cv a es (main_start a)) of
     Exited st \<Rightarrow> st = Returned
        \<and> (\<exists>pre. out (exec cv a es (main_start a)) = pre @ [DestroyAllWindows, Print ''[Receiver] Done.'']
               \<and> DestroyAllWindows \<notin> set pre)
   | _ \<Rightarrow> DestroyAllWindows \<notin> set (out (exec cv a es (main_start a)))"
proof (induction es rule: rev_induct)
  case Nil
  show ?case by (simp add: main_start_def)
next
  case (snoc e es)
  let ?w = "exec cv a es (main_start a)"
  show ?case
  proof (cases "\<exists>st. phase (react cv a e ?w) = Exited st")
    case True
    then obtain st where st: "phase (react cv a e ?w) = Exited st" by blast
    from exit_status_react [OF st] show ?thesis
    proof
      assume "phase ?w = Exited st \<and> out (react cv a e ?w) = out ?w"
      with snoc st show ?thesis by (simp add: exec_snoc)
    next
      assume *: "st = Returned \<and> (\<forall>st'. phase ?w \<noteq> Exited st')
              \<and> (\<exists>pre. out (react cv a e ?w) = pre @ [DestroyAllWindows, Print ''[Receiver] Done.'']
                        \<and> DestroyAllWindows \<notin> set pre - set (out ?w))"
      then have "DestroyAllWindows \<notin> set (out ?w)"
        using snoc by (cases "phase ?w") simp_all
      with * st show ?thesis by (auto simp: exec_snoc)
    qed
  next
    case False
    then have r: "\<forall>st. phase (react cv a e ?w) \<noteq> Exited st" by simp
    from running_react [OF r] snoc have "DestroyAllWindows \<notin> set (out (react cv a e ?w))"
      by (cases "phase ?w") auto
    with r show ?thesis by (cases "phase (react cv a e ?w)") (simp_all add: exec_snoc)
  qed
qed

subsection \<open>Runs without SLAM frames\<close>

lemma rgb_only_inv_react:
  assumes "rgb_only_inv w" "rgb_only_event e"
  shows "rgb_only_inv (react cv a e w)"
proof (cases e)
  case (Frame s d r)
  with assms show ?thesis
    by (cases s) (simp_all add: rgb_only_inv_def deliver_serving serving_def)
next
  case (Step k)
  with assms show ?thesis
    by (cases "phase w")
      (auto simp: rgb_only_inv_def serving_def main_step_phase get_snapshot_locals split: option.splits)
next
  case KeyboardInterrupt
  with assms show ?thesis by simp
qed

lemma rgb_only_inv_exec:
  "rgb_only_inv w \<Longrightarrow> list_all rgb_only_event es \<Longrightarrow> rgb_only_inv (exec cv a es w)"
  by (induction es arbitrary: w) (simp_all add: rgb_only_inv_react)

lemma main_start_fields [simp]:
  "heap (main_start a) = []" "latest_rgb (main_start a) = None" "latest_slam (main_start a) = None"
  "latest_rgb_ts (main_start a) = None" "latest_slam_ts (main_start a) = None"
  "rgb (main_start a) = None" "slam (main_start a) = None"
  "rgb_ts (main_start a) = None" "slam_ts (main_start a) = None"
  "phase (main_start a) = AtSnapshot"
  "out (main_start a) =
     [Print (''[Receiver] Starting server on http(s)://'' @ host a @ '':'' @ str_int (port a)),
      Print ''[Receiver] Waiting for device to start streaming...'']"
  by (simp_all add: main_start_def)

lemma rgb_only_inv_start: "rgb_only_inv (deliver RGB d r (main_start a))"
  using serving_main_start [of a]
  by (simp add: rgb_only_inv_def deliver_serving [OF serving_main_start]) (simp add: serving_def)

lemma rgb_only_run:
  "list_all rgb_only_event es \<Longrightarrow> rgb_only_inv (exec cv a (Frame RGB d r # es) (main_start a))"
  by (simp add: rgb_only_inv_exec rgb_only_inv_start)

lemma never_raised: "phase (exec cv a es (main_start a)) \<noteq> Exited (Raised err)"
  using teardown_in_run [of cv a es] by (cases "phase (exec cv a es (main_start a))") auto

subsection \<open>Command line and receiver\<close>

lemma parse_args_snoc: "parse_args (argv @ [opt]) = store_option (parse_args argv) opt"
  by (simp add: parse_args_def)



lemma build_receiver_fields:
  "server_config (build_receiver h p v) = Some (h, p)"
  "vrs_path (build_receiver h p v) = (if v \<noteq> [] then Some v else None)"
  "rgb_cb (build_receiver h p v) = Some Rgb_callback"
  "slam_cb (build_receiver h p v) = Some Slam_callback"
  "server_started (build_receiver h p v) = False"
  "enable_image_decoding (build_receiver h p v) = True"
  "enable_raw_stream (build_receiver h p v) = False"
  by (simp_all add: build_receiver_def sr_register_slam_callback_def sr_register_rgb_callback_def
      sr_record_to_vrs_def sr_set_server_config_def StreamReceiver_def Let_def)

lemma sr_main_start: "sr (main_start a) = sr_start_server (build_receiver (host a) (port a) (record_to_vrs a))"
  by (simp add: main_start_def)

lemma hide_slam_fields [simp]:
  "heap (hide_slam w) = heap w" "phase (hide_slam w) = phase w" "sr (hide_slam w) = sr w"
  "rgb (hide_slam w) = rgb w" "slam (hide_slam w) = slam w"
  "rgb_ts (hide_slam w) = rgb_ts w" "slam_ts (hide_slam w) = slam_ts w"
  "latest_rgb (hide_slam w) = latest_rgb w" "latest_slam (hide_slam w) = latest_slam w"
  "latest_rgb_ts (hide_slam w) = latest_rgb_ts w" "latest_slam_ts (hide_slam w) = latest_slam_ts w"
  "out (hide_slam w) = filter (\<lambda>x. \<not> is_slam_show x) (out w)"
  by (simp_all add: hide_slam_def)









subsection \<open>Annotation of the images shown\<close>






subsection \<open>The invariant of the lock\<close>

lemma from_one_put_mono:
  "from_one_put sid es p \<Longrightarrow> set es \<subseteq> set es' \<Longrightarrow> from_one_put sid es' p"
  by (auto simp: from_one_put_def)

lemma pool_ok_mono: "pool_ok es s \<Longrightarrow> set es \<subseteq> set es' \<Longrightarrow> pool_ok es' s"
  unfolding pool_ok_def by blast

lemma slot_ok_mono: "slot_ok sid es s \<Longrightarrow> set es \<subseteq> set es' \<Longrightarrow> slot_ok sid es' s"
  unfolding slot_ok_def by (blast intro: from_one_put_mono)

lemma local_ok_mono: "local_ok sid es s \<Longrightarrow> set es \<subseteq> set es' \<Longrightarrow> local_ok sid es' s"
  unfolding local_ok_def by (auto split: if_splits intro: from_one_put_mono)

lemma lock_inv_mono: "lock_inv es s \<Longrightarrow> set es \<subseteq> set es' \<Longrightarrow> lock_inv es' s"
  unfolding lock_inv_def by (blast intro: pool_ok_mono slot_ok_mono local_ok_mono)

lemma records_main_start [simp]:
  "stored sid (main_start a) = (None, None)" "returned sid (main_start a) = (None, None)"
  by (cases sid; simp)+

lemma lock_inv_start: "lock_inv [] (sys_start a)"
  by (simp add: lock_inv_def sys_start_def serving_main_start refs_ok_main_start pool_ok_def
      main_ok_def slot_ok_def local_ok_def writing_def from_one_put_def del: stored.simps returned.simps)

lemma spawn_serving:
  "serving (mem s) \<Longrightarrow> spawn sid d r s =
     s\<lparr>pool := pool s @ [\<lparr>inv_cb = cb_of sid, inv_image_data = d, inv_image_record = r,
                           inv_img = None, inv_pc = CbConvert\<rparr>]\<rparr>"
  by (cases sid) (simp_all add: spawn_def serving_def)

lemma lock_inv_spawn:
  assumes "lock_inv es s"
  shows "lock_inv (es @ [Deliver sid d r]) (spawn sid d r s)"
proof -
  from assms have inv: "lock_inv (es @ [Deliver sid d r]) s"
    by (rule lock_inv_mono) auto
  from assms have sv: "serving (mem s)" by (simp add: lock_inv_def)
  let ?t = "\<lparr>inv_cb = cb_of sid, inv_image_data = d, inv_image_record = r,
                           inv_img = None, inv_pc = CbConvert\<rparr>"
  let ?s = "s\<lparr>pool := pool s @ [?t]\<rparr>"
  have p: "pool_ok (es @ [Deliver sid d r]) ?s"
    using inv unfolding lock_inv_def pool_ok_def
    by (auto simp: nth_append less_Suc_eq main_ok_def)
  have m: "main_ok ?s" using inv unfolding lock_inv_def main_ok_def by auto
  have w: "writing x ?s = writing x s" for x
    unfolding writing_def by (auto simp: nth_append less_Suc_eq)
  have sl: "slot_ok x (es @ [Deliver sid d r]) ?s" for x
    using inv unfolding lock_inv_def slot_ok_def w by (auto simp: nth_append less_Suc_eq)
  have lo: "local_ok x (es @ [Deliver sid d r]) ?s" for x
    using inv unfolding lock_inv_def local_ok_def by auto
  from inv p m sl lo show ?thesis
    by (simp add: spawn_serving [OF sv] lock_inv_def)
qed

lemma stored_heap_ext:
  "refs_ok w \<Longrightarrow> stored sid (w\<lparr>heap := heap w @ ys\<rparr>) = stored sid w"
  by (cases sid) (simp_all add: refs_ok_def content_append)

lemma returned_heap_ext:
  "refs_ok w \<Longrightarrow> returned sid (w\<lparr>heap := heap w @ ys\<rparr>) = returned sid w"
  by (cases sid) (simp_all add: refs_ok_def content_append)

lemma refs_ok_heap_ext: "refs_ok w \<Longrightarrow> refs_ok (w\<lparr>heap := heap w @ ys\<rparr>)"
  by (auto simp: refs_ok_def)

lemma cb_of_inject [simp]: "cb_of sid = cb_of sid' \<longleftrightarrow> sid = sid'"
  by (cases sid; cases sid'; simp)

text \<open>Only the owner of the lock is inside a \<^verbatim>\<open>with\<close> block.\<close>

lemma pool_ok_owner:
  "pool_ok es s \<Longrightarrow> j < length (pool s) \<Longrightarrow>
   inv_pc (pool s ! j) = CbStoreImage \<or> inv_pc (pool s ! j) = CbStoreTs \<or> inv_pc (pool s ! j) = CbRelease
   \<Longrightarrow> lock s = Some (SdkThread j)"
  unfolding pool_ok_def by blast

lemma not_writing_unless_owner:
  "pool_ok es s \<Longrightarrow> \<forall>j. lock s \<noteq> Some (SdkThread j) \<Longrightarrow> \<not> writing sid s"
  unfolding writing_def using pool_ok_owner by blast

lemma writing_pool_update:
  "i < length (pool s) \<Longrightarrow> inv_pc (pool s ! i) \<noteq> CbStoreTs \<Longrightarrow> inv_pc t \<noteq> CbStoreTs
   \<Longrightarrow> pool s' = (pool s)[i := t] \<Longrightarrow> writing sid s' = writing sid s"
  unfolding writing_def by (metis length_list_update nth_list_update_eq nth_list_update_neq)

lemma lock_inv_convert:
  assumes inv: "lock_inv es s" and i: "i < length (pool s)" and pc: "inv_pc (pool s ! i) = CbConvert"
  shows "lock_inv es (callback_step i s)"
proof -
  let ?w = "mem s" and ?t = "pool s ! i"
  let ?s = "s\<lparr>mem := ?w\<lparr>heap := heap ?w @ [inv_image_data ?t]\<rparr>,
              pool := (pool s)[i := ?t\<lparr>inv_img := Some (length (heap ?w)), inv_pc := CbAcquire\<rparr>]\<rparr>"
  have eq: "callback_step i s = ?s"
    using i pc by (simp add: callback_step_def to_numpy_array_def alloc_def Let_def)
  from inv have ok: "refs_ok ?w" and sv: "serving ?w" and po: "pool_ok es s" and mo: "main_ok s"
    and so: "\<And>sid. slot_ok sid es s" and lo: "\<And>sid. local_ok sid es s"
    by (simp_all add: lock_inv_def)
  have 1: "refs_ok (mem ?s)" using ok by (simp add: refs_ok_heap_ext)
  have 2: "serving (mem ?s)" using sv by (simp add: serving_def)
  have 3: "pool_ok es ?s"
    using po i pc unfolding pool_ok_def
    by (auto simp: nth_list_update nth_append)
  have 4: "main_ok ?s" using mo by (simp add: main_ok_def)
  have w: "writing sid ?s = writing sid s" for sid
    using i pc by (intro writing_pool_update [where i = i]) simp_all
  have 5: "slot_ok sid es ?s" for sid
    using so [of sid] i pc unfolding slot_ok_def w
    by (cases sid) (auto simp: nth_list_update stored_heap_ext [OF ok] simp del: stored.simps)
  have 6: "local_ok sid es ?s" for sid
    using lo [of sid] unfolding local_ok_def
    by (simp add: stored_heap_ext [OF ok] returned_heap_ext [OF ok] del: stored.simps returned.simps)
  from 1 2 3 4 5 6 show ?thesis unfolding eq lock_inv_def by blast
qed

lemma lock_inv_acquire:
  assumes inv: "lock_inv es s" and i: "i < length (pool s)" and pc: "inv_pc (pool s ! i) = CbAcquire"
  shows "lock_inv es (callback_step i s)"
proof (cases "lock s = None")
  case False
  with i pc have "callback_step i s = s" by (auto simp: callback_step_def Let_def)
  with inv show ?thesis by simp
next
  case True
  let ?t = "pool s ! i"
  let ?s = "s\<lparr>lock := Some (SdkThread i), pool := (pool s)[i := ?t\<lparr>inv_pc := CbStoreImage\<rparr>]\<rparr>"
  have eq: "callback_step i s = ?s"
    using i pc True by (simp add: callback_step_def Let_def)
  from inv have ok: "refs_ok (mem s)" and sv: "serving (mem s)" and po: "pool_ok es s" and mo: "main_ok s"
    and so: "\<And>sid. slot_ok sid es s" and lo: "\<And>sid. local_ok sid es s"
    by (simp_all add: lock_inv_def)
  have 3: "pool_ok es ?s"
    using po i pc True unfolding pool_ok_def
    by (auto simp: nth_list_update)
  have 4: "main_ok ?s" using mo i True by (simp add: main_ok_def)
  have w: "writing sid ?s = writing sid s" for sid
    using i pc by (intro writing_pool_update [where i = i]) simp_all
  have 5: "slot_ok sid es ?s" for sid
    using so [of sid] i pc unfolding slot_ok_def w
    by (auto simp: nth_list_update)
  have 6: "local_ok sid es ?s" for sid
    using lo [of sid] True unfolding local_ok_def by simp
  from ok sv 3 4 5 6 show ?thesis unfolding eq lock_inv_def by simp
qed

lemma pool_ok_img:
  "pool_ok es s \<Longrightarrow> j < length (pool s) \<Longrightarrow> inv_pc (pool s ! j) \<noteq> CbConvert \<Longrightarrow>
   \<exists>x. inv_img (pool s ! j) = Some x \<and> x < length (heap (mem s))
       \<and> heap (mem s) ! x = inv_image_data (pool s ! j)"
  unfolding pool_ok_def by blast

lemma pool_ok_origin:
  "pool_ok es s \<Longrightarrow> j < length (pool s) \<Longrightarrow>
   \<exists>sid. Deliver sid (inv_image_data (pool s ! j)) (inv_image_record (pool s ! j)) \<in> set es
       \<and> inv_cb (pool s ! j) = cb_of sid"
  unfolding pool_ok_def by blast

lemma lock_inv_store_image:
  assumes inv: "lock_inv es s" and i: "i < length (pool s)" and pc: "inv_pc (pool s ! i) = CbStoreImage"
  shows "lock_inv es (callback_step i s)"
proof -
  let ?w = "mem s" and ?t = "pool s ! i"
  let ?m = "case inv_cb ?t of Rgb_callback \<Rightarrow> ?w\<lparr>latest_rgb := inv_img ?t\<rparr>
                            | Slam_callback \<Rightarrow> ?w\<lparr>latest_slam := inv_img ?t\<rparr>"
  let ?s = "s\<lparr>mem := ?m, pool := (pool s)[i := ?t\<lparr>inv_pc := CbStoreTs\<rparr>]\<rparr>"
  have eq: "callback_step i s = ?s"
    using i pc by (simp add: callback_step_def Let_def)
  from inv have ok: "refs_ok ?w" and sv: "serving ?w" and po: "pool_ok es s" and mo: "main_ok s"
    and so: "\<And>sid. slot_ok sid es s" and lo: "\<And>sid. local_ok sid es s"
    by (simp_all add: lock_inv_def)
  from pool_ok_owner [OF po i] pc have own: "lock s = Some (SdkThread i)" by simp
  from pool_ok_img [OF po i] pc obtain x where x: "inv_img ?t = Some x" "x < length (heap ?w)"
    by auto
  have others: "j < length (pool s) \<Longrightarrow> j \<noteq> i \<Longrightarrow> inv_pc (pool s ! j) \<noteq> CbStoreTs" for j
    using pool_ok_owner [OF po, of j] own by auto
  have 1: "refs_ok ?m" using ok x by (cases "inv_cb ?t") (auto simp: refs_ok_def)
  have 2: "serving ?m" using sv by (cases "inv_cb ?t") (simp_all add: serving_def)
  have h: "heap ?m = heap ?w" "phase ?m = phase ?w" by (cases "inv_cb ?t"; simp)+
  have 3: "pool_ok es ?s"
    using po i pc unfolding pool_ok_def by (auto simp: nth_list_update h)
  have 4: "main_ok ?s" using mo by (simp add: main_ok_def h)
  have r: "returned sid ?m = returned sid ?w" for sid
    by (cases sid; cases "inv_cb ?t"; simp)
  have 5: "slot_ok sid es ?s" for sid
  proof (cases "inv_cb ?t = cb_of sid")
    case True
    then have l: "latest sid ?m = inv_img ?t"
      by (cases sid; cases "inv_cb ?t"; simp)
    have "writing sid ?s" unfolding writing_def using i True
      by (auto intro!: exI [of _ i])
    with l others i show ?thesis unfolding slot_ok_def
      by (auto simp: nth_list_update)
  next
    case False
    then have l: "latest sid ?m = latest sid ?w" "stored sid ?m = stored sid ?w"
      by (cases sid; cases "inv_cb ?t"; simp)+
    have "writing sid ?s = writing sid s"
      unfolding writing_def using False i others
      by (auto simp: nth_list_update)
    with so [of sid] l False i show ?thesis unfolding slot_ok_def
      by (auto simp: nth_list_update simp del: stored.simps)
  qed
  have 6: "local_ok sid es ?s" for sid
    using lo [of sid] own unfolding local_ok_def by (simp add: r h del: returned.simps)
  from 1 2 3 4 5 6 show ?thesis unfolding eq lock_inv_def by simp
qed

lemma lock_inv_store_ts:
  assumes inv: "lock_inv es s" and i: "i < length (pool s)" and pc: "inv_pc (pool s ! i) = CbStoreTs"
  shows "lock_inv es (callback_step i s)"
proof -
  let ?w = "mem s" and ?t = "pool s ! i"
  let ?ts = "Some (capture_timestamp_ns (inv_image_record ?t))"
  let ?m = "case inv_cb ?t of Rgb_callback \<Rightarrow> ?w\<lparr>latest_rgb_ts := ?ts\<rparr>
                            | Slam_callback \<Rightarrow> ?w\<lparr>latest_slam_ts := ?ts\<rparr>"
  let ?s = "s\<lparr>mem := ?m, pool := (pool s)[i := ?t\<lparr>inv_pc := CbRelease\<rparr>]\<rparr>"
  have eq: "callback_step i s = ?s"
    using i pc by (simp add: callback_step_def Let_def)
  from inv have ok: "refs_ok ?w" and sv: "serving ?w" and po: "pool_ok es s" and mo: "main_ok s"
    and so: "\<And>sid. slot_ok sid es s" and lo: "\<And>sid. local_ok sid es s"
    by (simp_all add: lock_inv_def)
  from pool_ok_owner [OF po i] pc have own: "lock s = Some (SdkThread i)" by simp
  from pool_ok_img [OF po i] pc obtain x where x: "inv_img ?t = Some x" "x < length (heap ?w)"
    "heap ?w ! x = inv_image_data ?t" by auto
  from pool_ok_origin [OF po i] obtain sid0 where o: "Deliver sid0 (inv_image_data ?t)
    (inv_image_record ?t) \<in> set es" "inv_cb ?t = cb_of sid0" by blast
  have others: "j < length (pool s) \<Longrightarrow> j \<noteq> i \<Longrightarrow> inv_pc (pool s ! j) \<noteq> CbStoreTs" for j
    using pool_ok_owner [OF po, of j] own by auto
  have 1: "refs_ok ?m" using ok by (cases "inv_cb ?t") (auto simp: refs_ok_def)
  have 2: "serving ?m" using sv by (cases "inv_cb ?t") (simp_all add: serving_def)
  have h: "heap ?m = heap ?w" "phase ?m = phase ?w" by (cases "inv_cb ?t"; simp)+
  have 3: "pool_ok es ?s"
    using po i pc unfolding pool_ok_def by (auto simp: nth_list_update h)
  have 4: "main_ok ?s" using mo by (simp add: main_ok_def h)
  have r: "returned sid ?m = returned sid ?w" for sid
    by (cases sid; cases "inv_cb ?t"; simp)
  have nw: "\<not> writing sid ?s" for sid
    unfolding writing_def using others i by (auto simp: nth_list_update)
  have 5: "slot_ok sid es ?s" for sid
  proof (cases "sid = sid0")
    case True
    from so [of sid] i pc o(2) True have "latest sid ?w = inv_img ?t"
      unfolding slot_ok_def by simp
    with x o(2) True have "stored sid ?m = (Some (inv_image_data ?t), ?ts)"
      by (cases sid) simp_all
    with o(1) True have "from_one_put sid es (stored sid ?m)"
      unfolding from_one_put_def by blast
    with nw others i show ?thesis unfolding slot_ok_def
      by (auto simp: nth_list_update simp del: stored.simps)
  next
    case False
    with o(2) have l: "stored sid ?m = stored sid ?w"
      by (cases sid; cases sid0; simp)
    from False o(2) others pc have "\<not> writing sid s"
      unfolding writing_def by (metis cb_of_inject)
    with so [of sid] have "from_one_put sid es (stored sid ?w)" unfolding slot_ok_def by simp
    with nw l others i show ?thesis unfolding slot_ok_def
      by (auto simp: nth_list_update simp del: stored.simps)
  qed
  have 6: "local_ok sid es ?s" for sid
    using lo [of sid] own unfolding local_ok_def by (simp add: r h del: returned.simps)
  from 1 2 3 4 5 6 show ?thesis unfolding eq lock_inv_def by simp
qed

lemma lock_inv_release:
  assumes inv: "lock_inv es s" and i: "i < length (pool s)" and pc: "inv_pc (pool s ! i) = CbRelease"
  shows "lock_inv es (callback_step i s)"
proof -
  let ?t = "pool s ! i"
  let ?s = "s\<lparr>lock := None, pool := (pool s)[i := ?t\<lparr>inv_pc := CbDone\<rparr>]\<rparr>"
  have eq: "callback_step i s = ?s"
    using i pc by (simp add: callback_step_def Let_def)
  from inv have ok: "refs_ok (mem s)" and sv: "serving (mem s)" and po: "pool_ok es s" and mo: "main_ok s"
    and so: "\<And>sid. slot_ok sid es s" and lo: "\<And>sid. local_ok sid es s"
    by (simp_all add: lock_inv_def)
  from pool_ok_owner [OF po i] pc have own: "lock s = Some (SdkThread i)" by simp
  have 3: "pool_ok es ?s"
    using po i pc own unfolding pool_ok_def by (auto simp: nth_list_update)
  have 4: "main_ok ?s" using mo own by (auto simp: main_ok_def)
  have w: "writing sid ?s = writing sid s" for sid
    using i pc by (intro writing_pool_update [where i = i]) simp_all
  have 5: "slot_ok sid es ?s" for sid
    using so [of sid] i pc unfolding slot_ok_def w
    by (auto simp: nth_list_update)
  have 6: "local_ok sid es ?s" for sid
    using lo [of sid] own unfolding local_ok_def by simp
  from ok sv 3 4 5 6 show ?thesis unfolding eq lock_inv_def by simp
qed

lemma lock_inv_callback_step:
  assumes inv: "lock_inv es s"
  shows "lock_inv es (callback_step i s)"
proof (cases "i < length (pool s)")
  case False
  then have "callback_step i s = s" by (simp add: callback_step_def)
  with inv show ?thesis by simp
next
  case True
  show ?thesis
  proof (cases "inv_pc (pool s ! i)")
    case CbConvert
    with inv True show ?thesis by (rule lock_inv_convert)
  next
    case CbAcquire
    with inv True show ?thesis by (rule lock_inv_acquire)
  next
    case CbStoreImage
    with inv True show ?thesis by (rule lock_inv_store_image)
  next
    case CbStoreTs
    with inv True show ?thesis by (rule lock_inv_store_ts)
  next
    case CbRelease
    with inv True show ?thesis by (rule lock_inv_release)
  next
    case CbDone
    with True have "callback_step i s = s" by (simp add: callback_step_def Let_def)
    with inv show ?thesis by simp
  qed
qed

lemma latest_main_step [simp]: "latest sid (main_step cv a k w) = latest sid w"
  by (cases sid) simp_all

lemma latest_interrupt [simp]: "latest sid (interrupt w) = latest sid w"
  by (cases sid) simp_all

lemma lock_inv_rest:
  assumes inv: "lock_inv es s" and ph: "phase (mem s) \<noteq> AtSnapshot"
  shows "lock_inv es (main_thread_step cv a k s)"
proof -
  let ?w = "mem s"
  let ?s = "s\<lparr>mem := main_step cv a k ?w\<rparr>"
  have eq: "main_thread_step cv a k s = ?s"
    using ph by (simp add: main_thread_step_def Let_def)
  from inv have ok: "refs_ok ?w" and sv: "serving ?w" and po: "pool_ok es s" and mo: "main_ok s"
    and so: "\<And>sid. slot_ok sid es s" and lo: "\<And>sid. local_ok sid es s"
    by (simp_all add: lock_inv_def)
  obtain ys where h: "heap (main_step cv a k ?w) = heap ?w @ ys"
    using main_step_heap by blast
  from mo ph have nl: "lock s \<noteq> Some MainThread" and sn: "snap s = SnAcquire"
    by (auto simp: main_ok_def)
  have 1: "refs_ok (mem ?s)" using ok by (simp add: refs_ok_main_step)
  have 2: "serving (mem ?s)" using sv by (simp add: serving_def)
  have 3: "pool_ok es ?s"
    using po unfolding pool_ok_def by (auto simp: h nth_append)
  have 4: "main_ok ?s" using mo nl sn by (auto simp: main_ok_def)
  have w: "writing sid ?s = writing sid s" for sid by (simp add: writing_def)
  have 5: "slot_ok sid es ?s" for sid
    using so [of sid] unfolding slot_ok_def w
    by (simp add: stored_main_step [OF ok] del: stored.simps)
  have r: "returned sid (main_step cv a k ?w) = returned sid ?w" for sid
    using returned_main_step [OF ok, of sid cv a k] ph by simp
  have e: "(\<forall>st. phase (main_step cv a k ?w) \<noteq> Exited st) \<Longrightarrow> (\<forall>st. phase ?w \<noteq> Exited st)"
    by (auto simp: main_step_Exited)
  have 6: "local_ok sid es ?s" for sid
    using lo [of sid] nl e unfolding local_ok_def by (auto simp: r simp del: returned.simps)
  from 1 2 3 4 5 6 show ?thesis unfolding eq lock_inv_def by blast
qed

lemma lock_inv_signal:
  assumes inv: "lock_inv es s"
  shows "lock_inv es (signal s)"
proof -
  let ?w = "mem s"
  from inv have ok: "refs_ok ?w" and sv: "serving ?w" and po: "pool_ok es s" and mo: "main_ok s"
    and so: "\<And>sid. slot_ok sid es s" and lo: "\<And>sid. local_ok sid es s"
    by (simp_all add: lock_inv_def)
  have ex: "\<exists>st. phase (interrupt ?w) = Exited st"
    by (cases "phase ?w") (simp_all add: interrupt_def except_KeyboardInterrupt_def finally_clause_def)
  have 1: "refs_ok (mem (signal s))" using ok by (simp add: signal_def refs_ok_def)
  have 2: "serving (mem (signal s))" using sv by (simp add: signal_def serving_def)
  have 3: "pool_ok es (signal s)"
    using po unfolding pool_ok_def by (auto simp: signal_def)
  have 4: "main_ok (signal s)" using mo ex by (auto simp: main_ok_def signal_def)
  have w: "writing sid (signal s) = writing sid s" for sid by (simp add: writing_def signal_def)
  have 5: "slot_ok sid es (signal s)" for sid
    using so [of sid] unfolding slot_ok_def w
    by (simp add: signal_def del: stored.simps)
  have 6: "local_ok sid es (signal s)" for sid
    using ex unfolding local_ok_def by (auto simp: signal_def)
  from 1 2 3 4 5 6 show ?thesis unfolding lock_inv_def by blast
qed

lemma copy_or_None_eq:
  "copy_or_None v h = (case v of None \<Rightarrow> (None, h) | Some a \<Rightarrow> (Some (length h), h @ [h ! a]))"
  by (simp add: copy_or_None_def ndarray_copy_def alloc_def split: option.splits)

lemma lock_inv_snapshot:
  assumes inv: "lock_inv es s" and ph: "phase (mem s) = AtSnapshot"
  shows "lock_inv es (main_thread_step cv a k s)"
proof -
  let ?w = "mem s"
  from inv have ok: "refs_ok ?w" and sv: "serving ?w" and po: "pool_ok es s" and mo: "main_ok s"
    and so: "\<And>sid. slot_ok sid es s" and lo: "\<And>sid. local_ok sid es s"
    by (simp_all add: lock_inv_def)
  show ?thesis
  proof (cases "snap s")
    case SnAcquire
    show ?thesis
    proof (cases "lock s = None")
      case False
      with ph SnAcquire have "main_thread_step cv a k s = s"
        by (auto simp: main_thread_step_def Let_def)
      with inv show ?thesis by simp
    next
      case True
      let ?s = "s\<lparr>lock := Some MainThread, snap := SnRgb\<rparr>"
      have eq: "main_thread_step cv a k s = ?s"
        using ph SnAcquire True by (simp add: main_thread_step_def Let_def)
      have 3: "pool_ok es ?s" using po True unfolding pool_ok_def by auto
      have 4: "main_ok ?s" using mo ph by (simp add: main_ok_def)
      have 5: "slot_ok sid es ?s" for sid
        using so [of sid] by (simp add: slot_ok_def writing_def)
      have 6: "local_ok sid es ?s" for sid
        by (cases sid) (simp_all add: local_ok_def)
      from ok sv 3 4 5 6 show ?thesis unfolding eq lock_inv_def by simp
    qed
  next
    case SnRgb
    with mo ph have own: "lock s = Some MainThread" by (simp add: main_ok_def)
    obtain r ys where c: "copy_or_None (latest_rgb ?w) (heap ?w) = (r, heap ?w @ ys)"
      and r: "map_option (\<lambda>x. (heap ?w @ ys) ! x) r = map_option (\<lambda>x. heap ?w ! x) (latest_rgb ?w)"
      and rl: "\<forall>x \<in> set_option r. x < length (heap ?w @ ys)"
      by (cases "latest_rgb ?w") (auto simp: copy_or_None_eq)
    let ?m = "?w\<lparr>heap := heap ?w @ ys, rgb := r\<rparr>"
    let ?s = "s\<lparr>mem := ?m, snap := SnSlam\<rparr>"
    have eq: "main_thread_step cv a k s = ?s"
      using ph SnRgb c by (simp add: main_thread_step_def Let_def)
    have st: "stored sid ?m = stored sid ?w" for sid
      using ok by (cases sid) (simp_all add: refs_ok_def content_append)
    have 1: "refs_ok ?m" using ok rl by (auto simp: refs_ok_def)
    have 2: "serving ?m" using sv by (simp add: serving_def)
    have 3: "pool_ok es ?s" using po unfolding pool_ok_def by (auto simp: nth_append)
    have 4: "main_ok ?s" using mo ph own by (simp add: main_ok_def)
    have 5: "slot_ok sid es ?s" for sid
      using so [of sid] unfolding slot_ok_def
      by (cases sid) (simp_all add: writing_def st del: stored.simps)
    have 6: "local_ok sid es ?s" for sid
      using own r ok by (cases sid) (simp_all add: local_ok_def refs_ok_def content_append)
    from 1 2 3 4 5 6 show ?thesis unfolding eq lock_inv_def by simp
  next
    case SnSlam
    with mo ph have own: "lock s = Some MainThread" by (simp add: main_ok_def)
    obtain r ys where c: "copy_or_None (latest_slam ?w) (heap ?w) = (r, heap ?w @ ys)"
      and r: "map_option (\<lambda>x. (heap ?w @ ys) ! x) r = map_option (\<lambda>x. heap ?w ! x) (latest_slam ?w)"
      and rl: "\<forall>x \<in> set_option r. x < length (heap ?w @ ys)"
      by (cases "latest_slam ?w") (auto simp: copy_or_None_eq)
    let ?m = "?w\<lparr>heap := heap ?w @ ys, slam := r\<rparr>"
    let ?s = "s\<lparr>mem := ?m, snap := SnRgbTs\<rparr>"
    have eq: "main_thread_step cv a k s = ?s"
      using ph SnSlam c by (simp add: main_thread_step_def Let_def)
    have st: "stored sid ?m = stored sid ?w" for sid
      using ok by (cases sid) (simp_all add: refs_ok_def content_append)
    have 1: "refs_ok ?m" using ok rl by (auto simp: refs_ok_def)
    have 2: "serving ?m" using sv by (simp add: serving_def)
    have 3: "pool_ok es ?s" using po unfolding pool_ok_def by (auto simp: nth_append)
    have 4: "main_ok ?s" using mo ph own by (simp add: main_ok_def)
    have 5: "slot_ok sid es ?s" for sid
      using so [of sid] unfolding slot_ok_def
      by (cases sid) (simp_all add: writing_def st del: stored.simps)
    have 6: "local_ok sid es ?s" for sid
      using own r ok lo [of sid] SnSlam
      by (cases sid) (simp_all add: local_ok_def refs_ok_def content_append)
    from 1 2 3 4 5 6 show ?thesis unfolding eq lock_inv_def by simp
  next
    case SnRgbTs
    with mo ph have own: "lock s = Some MainThread" by (simp add: main_ok_def)
    let ?m = "?w\<lparr>rgb_ts := latest_rgb_ts ?w\<rparr>"
    let ?s = "s\<lparr>mem := ?m, snap := SnSlamTs\<rparr>"
    have eq: "main_thread_step cv a k s = ?s"
      using ph SnRgbTs by (simp add: main_thread_step_def Let_def)
    have 1: "refs_ok ?m" using ok by (simp add: refs_ok_def)
    have 2: "serving ?m" using sv by (simp add: serving_def)
    have 3: "pool_ok es ?s" using po unfolding pool_ok_def by auto
    have 4: "main_ok ?s" using mo ph own by (simp add: main_ok_def)
    have 5: "slot_ok sid es ?s" for sid
      using so [of sid] unfolding slot_ok_def by (cases sid) (simp_all add: writing_def)
    have 6: "local_ok sid es ?s" for sid
      using own lo [of sid] SnRgbTs by (cases sid) (simp_all add: local_ok_def)
    from 1 2 3 4 5 6 show ?thesis unfolding eq lock_inv_def by simp
  next
    case SnSlamTs
    with mo ph have own: "lock s = Some MainThread" by (simp add: main_ok_def)
    let ?m = "?w\<lparr>slam_ts := latest_slam_ts ?w\<rparr>"
    let ?s = "s\<lparr>mem := ?m, snap := SnRelease\<rparr>"
    have eq: "main_thread_step cv a k s = ?s"
      using ph SnSlamTs by (simp add: main_thread_step_def Let_def)
    have 1: "refs_ok ?m" using ok by (simp add: refs_ok_def)
    have 2: "serving ?m" using sv by (simp add: serving_def)
    have 3: "pool_ok es ?s" using po unfolding pool_ok_def by auto
    have 4: "main_ok ?s" using mo ph own by (simp add: main_ok_def)
    have 5: "slot_ok sid es ?s" for sid
      using so [of sid] unfolding slot_ok_def by (cases sid) (simp_all add: writing_def)
    have 6: "local_ok sid es ?s" for sid
      using own lo [of sid] SnSlamTs by (cases sid) (simp_all add: local_ok_def)
    from 1 2 3 4 5 6 show ?thesis unfolding eq lock_inv_def by simp
  next
    case SnRelease
    with mo ph have own: "lock s = Some MainThread" by (simp add: main_ok_def)
    let ?m = "?w\<lparr>phase := AtShowRgb\<rparr>"
    let ?s = "s\<lparr>mem := ?m, lock := None, snap := SnAcquire\<rparr>"
    have eq: "main_thread_step cv a k s = ?s"
      using ph SnRelease by (simp add: main_thread_step_def Let_def)
    have nw: "\<not> writing sid s" for sid
      using not_writing_unless_owner [OF po] own by simp
    have 1: "refs_ok ?m" using ok by (simp add: refs_ok_def)
    have 2: "serving ?m" using sv by (simp add: serving_def)
    have 3: "pool_ok es ?s" using po own unfolding pool_ok_def by auto
    have 4: "main_ok ?s" using mo by (simp add: main_ok_def)
    have 5: "slot_ok sid es ?s" for sid
      using so [of sid] unfolding slot_ok_def by (cases sid) (simp_all add: writing_def)
    have 6: "local_ok sid es ?s" for sid
    proof -
      from lo [of sid] own SnRelease have "returned sid ?w = stored sid ?w"
        by (cases sid) (simp_all add: local_ok_def prod_eq_iff)
      moreover from so [of sid] nw have "from_one_put sid es (stored sid ?w)"
        by (simp add: slot_ok_def)
      moreover have "returned sid ?m = returned sid ?w" by (cases sid) simp_all
      ultimately show ?thesis by (simp add: local_ok_def del: returned.simps stored.simps)
    qed
    from 1 2 3 4 5 6 show ?thesis unfolding eq lock_inv_def by simp
  qed
qed

lemma lock_inv_main_thread_step:
  "lock_inv es s \<Longrightarrow> lock_inv es (main_thread_step cv a k s)"
  by (cases "phase (mem s) = AtSnapshot") (simp_all add: lock_inv_snapshot lock_inv_rest)

lemma sys_exec_snoc: "sys_exec cv a (es @ [e]) s = sys_step cv a e (sys_exec cv a es s)"
  by (induction es arbitrary: s) simp_all

lemma lock_inv_sys_step:
  assumes "lock_inv es s"
  shows "lock_inv (es @ [e]) (sys_step cv a e s)"
proof (cases e)
  case (Deliver sid d r)
  with assms show ?thesis by (simp add: lock_inv_spawn)
next
  case (RunCallback i)
  from assms have "lock_inv (es @ [e]) s" by (rule lock_inv_mono) auto
  with RunCallback show ?thesis by (simp add: lock_inv_callback_step)
next
  case (RunMain k)
  from assms have "lock_inv (es @ [e]) s" by (rule lock_inv_mono) auto
  with RunMain show ?thesis by (simp add: lock_inv_main_thread_step)
next
  case Signal
  from assms have "lock_inv (es @ [e]) s" by (rule lock_inv_mono) auto
  with Signal show ?thesis by (simp add: lock_inv_signal)
qed

lemma lock_inv_run: "lock_inv es (sys_exec cv a es (sys_start a))"
  by (induction es rule: rev_induct) (simp_all add: lock_inv_start sys_exec_snoc lock_inv_sys_step)

text \<open>Run without interference, an invocation does what the callback does.\<close>

lemma callback_alone:
  assumes "serving (mem s)" "lock s = None"
  shows "sys_exec cv a [Deliver sid d r, RunCallback (length (pool s)), RunCallback (length (pool s)),
            RunCallback (length (pool s)), RunCallback (length (pool s)), RunCallback (length (pool s))] s
         = s\<lparr>mem := deliver sid d r (mem s),
              pool := pool s @ [\<lparr>inv_cb = cb_of sid, inv_image_data = d, inv_image_record = r,
                                  inv_img = Some (length (heap (mem s))), inv_pc = CbDone\<rparr>]\<rparr>"
  using assms
  by (cases sid)
    (simp_all add: spawn_serving deliver_serving callback_step_def rgb_callback_def slam_callback_def
      to_numpy_array_def alloc_def Let_def)

text \<open>Run without interference, the block of the main thread is the snapshot.\<close>

lemma snapshot_alone:
  assumes "phase (mem s) = AtSnapshot" "snap s = SnAcquire" "lock s = None"
  shows "sys_exec cv a [RunMain k, RunMain k, RunMain k, RunMain k, RunMain k, RunMain k] s
         = s\<lparr>mem := main_step cv a k (mem s)\<rparr>"
proof -
  obtain r h1 where 1: "copy_or_None (latest_rgb (mem s)) (heap (mem s)) = (r, h1)" by fastforce
  obtain x h2 where 2: "copy_or_None (latest_slam (mem s)) h1 = (x, h2)" by fastforce
  let ?s1 = "s\<lparr>lock := Some MainThread, snap := SnRgb\<rparr>"
  let ?s2 = "s\<lparr>lock := Some MainThread, mem := (mem s)\<lparr>heap := h1, rgb := r\<rparr>, snap := SnSlam\<rparr>"
  let ?s3 = "s\<lparr>lock := Some MainThread, mem := (mem s)\<lparr>heap := h2, rgb := r, slam := x\<rparr>,
               snap := SnRgbTs\<rparr>"
  let ?s4 = "s\<lparr>lock := Some MainThread,
               mem := (mem s)\<lparr>heap := h2, rgb := r, slam := x, rgb_ts := latest_rgb_ts (mem s)\<rparr>,
               snap := SnSlamTs\<rparr>"
  let ?s5 = "s\<lparr>lock := Some MainThread,
               mem := (mem s)\<lparr>heap := h2, rgb := r, slam := x, rgb_ts := latest_rgb_ts (mem s),
                              slam_ts := latest_slam_ts (mem s)\<rparr>,
               snap := SnRelease\<rparr>"
  have a: "main_thread_step cv a k s = ?s1"
    using assms by (simp add: main_thread_step_def)
  have b: "main_thread_step cv a k ?s1 = ?s2"
    using assms 1 by (simp add: main_thread_step_def)
  have c: "main_thread_step cv a k ?s2 = ?s3"
    using assms 2 by (simp add: main_thread_step_def)
  have d: "main_thread_step cv a k ?s3 = ?s4"
    using assms by (simp add: main_thread_step_def)
  have e: "main_thread_step cv a k ?s4 = ?s5"
    using assms by (simp add: main_thread_step_def)
  have f: "main_thread_step cv a k ?s5 = s\<lparr>mem := main_step cv a k (mem s)\<rparr>"
    using assms 1 2 by (simp add: main_thread_step_def main_step_AtSnapshot get_snapshot_def)
  show ?thesis by (simp only: sys_exec.simps sys_step.simps a b c d e f)
qed

lemmas sys_defs = sys_start_def spawn_def callback_step_def main_thread_step_def signal_def
  sched_sample_def sched_midwrite_def

subsection \<open>The frame cache\<close>

text \<open>
  C1. Whatever the run so far (frames delivered to the callbacks, interleaved with
  statements of the loop), a snapshot taken after it returns, for each of the two streams,
  the image and the timestamp of the last frame put to that stream, and the absent marker
  for both if the stream received no frame.
\<close>

theorem snapshot_returns_last_put:
  "returned sid (get_snapshot (exec cv a es (main_start a))) = record_of (last_put sid es)"
  by (simp add: returned_get_snapshot refs_ok_exec refs_ok_main_start stored_exec)

theorem snapshot_returns_last_put_witness:
  "returned RGB (get_snapshot (exec cv_sample parser_defaults
      [Frame RGB [1, 2, 3] (rec_ns 100), Frame RGB [4, 5, 6] (rec_ns 200)]
      (main_start parser_defaults))) = (Some [4, 5, 6], Some 200)
   \<and> returned SLAM (get_snapshot (exec cv_sample parser_defaults
      [Frame RGB [1, 2, 3] (rec_ns 100), Frame RGB [4, 5, 6] (rec_ns 200)]
      (main_start parser_defaults))) = (None, None)"
  using snapshot_returns_last_put [of RGB cv_sample parser_defaults
      "[Frame RGB [1, 2, 3] (rec_ns 100), Frame RGB [4, 5, 6] (rec_ns 200)]"]
    snapshot_returns_last_put [of SLAM cv_sample parser_defaults
      "[Frame RGB [1, 2, 3] (rec_ns 100), Frame RGB [4, 5, 6] (rec_ns 200)]"]
  by (simp add: rec_ns_def)

text \<open>
  C2. The callbacks and the snapshot run statement by statement, in any interleaving, with
  \<^verbatim>\<open>_lock\<close> as the only coordination. Whenever the main thread is in the loop and outside
  its \<^verbatim>\<open>with\<close> block, what it holds of a stream from its last snapshot is absent, or is the
  image and the timestamp of one and the same delivered frame. Whenever the lock is free,
  the same holds of the record in each slot of the cache.
\<close>

theorem snapshot_never_torn:
  "(lock (sys_exec cv a es (sys_start a)) \<noteq> Some MainThread
      \<and> (\<forall>st. phase (mem (sys_exec cv a es (sys_start a))) \<noteq> Exited st)
    \<longrightarrow> returned sid (mem (sys_exec cv a es (sys_start a))) = (None, None)
        \<or> (\<exists>d r. Deliver sid d r \<in> set es
              \<and> returned sid (mem (sys_exec cv a es (sys_start a)))
                  = (Some d, Some (capture_timestamp_ns r))))
   \<and> (lock (sys_exec cv a es (sys_start a)) = None
    \<longrightarrow> stored sid (mem (sys_exec cv a es (sys_start a))) = (None, None)
        \<or> (\<exists>d r. Deliver sid d r \<in> set es
              \<and> stored sid (mem (sys_exec cv a es (sys_start a)))
                  = (Some d, Some (capture_timestamp_ns r))))"
proof -
  let ?s = "sys_exec cv a es (sys_start a)"
  have inv: "lock_inv es ?s" by (rule lock_inv_run)
  then have po: "pool_ok es ?s" and so: "slot_ok sid es ?s" and lo: "local_ok sid es ?s"
    by (simp_all add: lock_inv_def)
  have "lock ?s = None \<Longrightarrow> \<not> writing sid ?s"
    using not_writing_unless_owner [OF po] by simp
  with so lo show ?thesis
    unfolding slot_ok_def local_ok_def from_one_put_def by auto
qed

theorem snapshot_never_torn_witness:
  "lock (sys_exec cv_sample parser_defaults sched_sample (sys_start parser_defaults)) = None
   \<and> phase (mem (sys_exec cv_sample parser_defaults sched_sample (sys_start parser_defaults))) = AtShowRgb
   \<and> lock (sys_exec cv_sample parser_defaults (take 11 sched_sample) (sys_start parser_defaults))
       = Some MainThread
   \<and> inv_pc (pool (sys_exec cv_sample parser_defaults (take 11 sched_sample) (sys_start parser_defaults)) ! 1)
       = CbAcquire
   \<and> returned RGB (mem (sys_exec cv_sample parser_defaults sched_sample (sys_start parser_defaults)))
       = (Some [1, 2, 3], Some 100)
   \<and> stored RGB (mem (sys_exec cv_sample parser_defaults sched_sample (sys_start parser_defaults)))
       = (Some [4, 5, 6], Some 200)
   \<and> (\<exists>d r. Deliver RGB d r \<in> set sched_sample
         \<and> returned RGB (mem (sys_exec cv_sample parser_defaults sched_sample (sys_start parser_defaults)))
             = (Some d, Some (capture_timestamp_ns r)))
   \<and> (\<exists>d r. Deliver RGB d r \<in> set sched_sample
         \<and> stored RGB (mem (sys_exec cv_sample parser_defaults sched_sample (sys_start parser_defaults)))
             = (Some d, Some (capture_timestamp_ns r)))
   \<and> stored RGB (mem (sys_exec cv_sample parser_defaults (take 12 sched_midwrite) (sys_start parser_defaults)))
       = (Some [4, 5, 6], Some 100)
   \<and> lock (sys_exec cv_sample parser_defaults (take 12 sched_midwrite) (sys_start parser_defaults))
       = Some (SdkThread 1)
   \<and> snap (sys_exec cv_sample parser_defaults (take 12 sched_midwrite) (sys_start parser_defaults))
       = SnAcquire
   \<and> lock (sys_exec cv_sample parser_defaults sched_midwrite (sys_start parser_defaults)) = None
   \<and> phase (mem (sys_exec cv_sample parser_defaults sched_midwrite (sys_start parser_defaults))) = AtShowRgb
   \<and> returned RGB (mem (sys_exec cv_sample parser_defaults sched_midwrite (sys_start parser_defaults)))
       = (Some [4, 5, 6], Some 200)"
proof -
  let ?s = "sys_exec cv_sample parser_defaults sched_sample (sys_start parser_defaults)"
  let ?m = "sys_exec cv_sample parser_defaults (take 12 sched_midwrite) (sys_start parser_defaults)"
  let ?t = "sys_exec cv_sample parser_defaults sched_midwrite (sys_start parser_defaults)"
  have 1: "lock ?s = None" by (simp add: sys_defs run_defs)
  have 2: "phase (mem ?s) = AtShowRgb" by (simp add: sys_defs run_defs)
  have 3: "lock (sys_exec cv_sample parser_defaults (take 11 sched_sample) (sys_start parser_defaults))
       = Some MainThread" by (simp add: sys_defs run_defs)
  have 4: "inv_pc (pool (sys_exec cv_sample parser_defaults (take 11 sched_sample) (sys_start parser_defaults)) ! 1)
       = CbAcquire" by (simp add: sys_defs run_defs)
  have 5: "returned RGB (mem ?s) = (Some [1, 2, 3], Some 100)" by (simp add: sys_defs run_defs)
  have 6: "stored RGB (mem ?s) = (Some [4, 5, 6], Some 200)" by (simp add: sys_defs run_defs)
  from 1 2 have h: "lock ?s \<noteq> Some MainThread \<and> (\<forall>st. phase (mem ?s) \<noteq> Exited st)" by simp
  from snapshot_never_torn [of cv_sample parser_defaults sched_sample RGB] h
  have "returned RGB (mem ?s) = (None, None)
        \<or> (\<exists>d r. Deliver RGB d r \<in> set sched_sample
              \<and> returned RGB (mem ?s) = (Some d, Some (capture_timestamp_ns r)))"
    by blast
  with 5 have 7: "\<exists>d r. Deliver RGB d r \<in> set sched_sample
              \<and> returned RGB (mem ?s) = (Some d, Some (capture_timestamp_ns r))"
    by (simp del: returned.simps)
  from snapshot_never_torn [of cv_sample parser_defaults sched_sample RGB] 1
  have "stored RGB (mem ?s) = (None, None)
        \<or> (\<exists>d r. Deliver RGB d r \<in> set sched_sample
              \<and> stored RGB (mem ?s) = (Some d, Some (capture_timestamp_ns r)))"
    by blast
  with 6 have 8: "\<exists>d r. Deliver RGB d r \<in> set sched_sample
              \<and> stored RGB (mem ?s) = (Some d, Some (capture_timestamp_ns r))"
    by (simp del: stored.simps)
  have 9: "stored RGB (mem ?m) = (Some [4, 5, 6], Some 100)" by (simp add: sys_defs run_defs)
  have 10: "lock ?m = Some (SdkThread 1)" by (simp add: sys_defs run_defs)
  have 11: "snap ?m = SnAcquire" by (simp add: sys_defs run_defs)
  have 12: "lock ?t = None" by (simp add: sys_defs run_defs)
  have 13: "phase (mem ?t) = AtShowRgb" by (simp add: sys_defs run_defs)
  have 14: "returned RGB (mem ?t) = (Some [4, 5, 6], Some 200)" by (simp add: sys_defs run_defs)
  from 1 2 3 4 5 6 7 8 9 10 11 12 13 14 show ?thesis by blast
qed

text \<open>
  C7. From any state, the RGB callback followed by the SLAM callback and the two in the
  other order leave the same frame record in each slot, namely the one just put, and a
  snapshot after either order returns both. The two final states are equal except for the
  addresses the two new arrays received.
\<close>

theorem puts_on_streams_commute:
  "stored sid (slam_callback b rb (rgb_callback a ra w)) = stored sid (rgb_callback a ra (slam_callback b rb w))
   \<and> stored sid (slam_callback b rb (rgb_callback a ra w))
        = (case sid of RGB \<Rightarrow> (Some a, Some (capture_timestamp_ns ra))
                     | SLAM \<Rightarrow> (Some b, Some (capture_timestamp_ns rb)))
   \<and> returned sid (get_snapshot (slam_callback b rb (rgb_callback a ra w)))
        = (case sid of RGB \<Rightarrow> (Some a, Some (capture_timestamp_ns ra))
                     | SLAM \<Rightarrow> (Some b, Some (capture_timestamp_ns rb)))
   \<and> returned sid (get_snapshot (rgb_callback a ra (slam_callback b rb w)))
        = (case sid of RGB \<Rightarrow> (Some a, Some (capture_timestamp_ns ra))
                     | SLAM \<Rightarrow> (Some b, Some (capture_timestamp_ns rb)))
   \<and> (slam_callback b rb (rgb_callback a ra w))\<lparr>heap := h, latest_rgb := x, latest_slam := y\<rparr>
        = (rgb_callback a ra (slam_callback b rb w))\<lparr>heap := h, latest_rgb := x, latest_slam := y\<rparr>"
proof -
  have "(slam_callback b rb (rgb_callback a ra w))\<lparr>heap := h, latest_rgb := x, latest_slam := y\<rparr>
        = (rgb_callback a ra (slam_callback b rb w))\<lparr>heap := h, latest_rgb := x, latest_slam := y\<rparr>"
    by (simp add: rgb_callback_def slam_callback_def to_numpy_array_def alloc_def)
  then show ?thesis
    by (simp only: stored_after_both stored_get_snapshot_any [OF latest_ok_after_both(1)]
        stored_get_snapshot_any [OF latest_ok_after_both(2)] simp_thms)
qed

theorem puts_on_streams_commute_witness:
  "stored RGB (slam_callback [7] (rec_ns 50) (rgb_callback [1, 2, 3] (rec_ns 100) (main_start parser_defaults)))
     = (Some [1, 2, 3 :: nat], Some 100)
   \<and> stored SLAM (rgb_callback [1, 2, 3] (rec_ns 100) (slam_callback [7] (rec_ns 50) (main_start parser_defaults)))
     = (Some [7 :: nat], Some 50)
   \<and> latest_rgb (slam_callback [7] (rec_ns 50) (rgb_callback [1, 2, 3 :: nat] (rec_ns 100) (main_start parser_defaults)))
     \<noteq> latest_rgb (rgb_callback [1, 2, 3] (rec_ns 100) (slam_callback [7] (rec_ns 50) (main_start parser_defaults)))"
  using puts_on_streams_commute [of RGB "[7]" "rec_ns 50" "[1, 2, 3]" "rec_ns 100" "main_start parser_defaults"]
    puts_on_streams_commute [of SLAM "[7]" "rec_ns 50" "[1, 2, 3]" "rec_ns 100" "main_start parser_defaults"]
  by (simp add: run_defs)

text \<open>
  C6. No step of a run (a callback, a statement of the loop, an interrupt) alters an
  array that exists, so a stored buffer is only ever replaced by a new one. The snapshot,
  every statement of the loop and the interrupt leave both slots as they are; each callback
  leaves the other stream's slot as it is. The arrays a snapshot returns are new ones,
  distinct from every array that existed and from each other.
\<close>

theorem cache_mutation_confined:
  "take (length (heap w)) (heap (react cv a e w)) = heap w
   \<and> take (length (heap w)) (heap (exec cv a es w)) = heap w
   \<and> slots (get_snapshot w) = slots w
   \<and> slots (main_step cv a k w) = slots w
   \<and> slots (interrupt w) = slots w
   \<and> snd (slots (rgb_callback d r w)) = snd (slots w)
   \<and> fst (slots (slam_callback d r w)) = fst (slots w)
   \<and> (\<forall>c \<in> set_option (rgb (get_snapshot w)) \<union> set_option (slam (get_snapshot w)).
         length (heap w) \<le> c \<and> c < length (heap (get_snapshot w)))
   \<and> (rgb (get_snapshot w) = slam (get_snapshot w) \<longrightarrow> rgb (get_snapshot w) = None)"
proof -
  obtain ys where 1: "heap (react cv a e w) = heap w @ ys" using react_heap by blast
  obtain zs where 2: "heap (exec cv a es w) = heap w @ zs" using exec_heap by blast
  show ?thesis
    by (auto simp: 1 2 slots_def get_snapshot_locals get_snapshot_heap_eq split: option.splits)
qed

theorem cache_mutation_confined_witness:
  "rgb (get_snapshot (rgb_callback [1, 2, 3 :: nat] (rec_ns 100) (main_start parser_defaults))) = Some 1
   \<and> length (heap (rgb_callback [1, 2, 3 :: nat] (rec_ns 100) (main_start parser_defaults))) = 1
   \<and> heap (get_snapshot (rgb_callback [1, 2, 3 :: nat] (rec_ns 100) (main_start parser_defaults)))
       = [[1, 2, 3], [1, 2, 3]]
   \<and> take 1 (heap (exec cv_sample parser_defaults [Step 0, Step 0, Step 0]
         (rgb_callback [1, 2, 3] (rec_ns 100) (main_start parser_defaults)))) = [[1, 2, 3]]"
  using cache_mutation_confined [of "rgb_callback [1, 2, 3] (rec_ns 100) (main_start parser_defaults)"
      cv_sample parser_defaults "Step 0" "[Step 0, Step 0, Step 0]" 0 "[]" "rec_ns 0"]
  by (simp add: run_defs)

subsection \<open>The display loop\<close>

text \<open>
  C3. A statement of the loop body shows an image in the SLAM window if and only if it is
  the statement under \<^verbatim>\<open># Show SLAM\<close>, the flag \<^verbatim>\<open>--show-slam\<close> was given, and the snapshot
  of this iteration holds a SLAM image. Without the flag, whatever frames arrive, every
  image a run shows is shown in the RGB window.
\<close>

theorem slam_window_iff_flag_and_record:
  "((\<exists>x. ImShow ''Aria SLAM'' x \<in> set (drop (length (out w)) (out (main_step cv a k w))))
      \<longleftrightarrow> phase w = AtShowSlam \<and> show_slam a \<and> slam w \<noteq> None)
   \<and> (\<not> show_slam a \<longrightarrow>
        (\<forall>n x. ImShow n x \<in> set (out (exec cv a es (main_start a)))
           \<longrightarrow> n = ''Aria RGB (press q to quit)''))"
proof -
  obtain acts where o: "out (main_step cv a k w) = out w @ acts"
    and i: "(\<exists>x. ImShow ''Aria SLAM'' x \<in> set acts) \<longleftrightarrow> phase w = AtShowSlam \<and> show_slam a \<and> slam w \<noteq> None"
    using main_step_out [of cv a k w] by blast
  show ?thesis using i shows_in_run [of _ _ cv a es] by (auto simp: o)
qed

theorem slam_window_iff_flag_and_record_witness:
  "phase (exec cv_sample (parse_args [Opt_show_slam]) [Frame SLAM [7] (rec_ns 50), Step 0, Step 0]
      (main_start (parse_args [Opt_show_slam]))) = AtShowSlam
   \<and> show_slam (parse_args [Opt_show_slam])
   \<and> slam (exec cv_sample (parse_args [Opt_show_slam]) [Frame SLAM [7] (rec_ns 50), Step 0, Step 0]
      (main_start (parse_args [Opt_show_slam]))) = Some 1
   \<and> (\<exists>x. ImShow ''Aria SLAM'' x \<in> set (drop
        (length (out (exec cv_sample (parse_args [Opt_show_slam]) [Frame SLAM [7] (rec_ns 50), Step 0, Step 0]
           (main_start (parse_args [Opt_show_slam])))))
        (out (main_step cv_sample (parse_args [Opt_show_slam]) 0
           (exec cv_sample (parse_args [Opt_show_slam]) [Frame SLAM [7] (rec_ns 50), Step 0, Step 0]
              (main_start (parse_args [Opt_show_slam])))))))
   \<and> \<not> show_slam (parse_args [])
   \<and> ImShow ''Aria RGB (press q to quit)'' 4 \<in> set (out (exec cv_sample (parse_args [])
        [Frame SLAM [7] (rec_ns 50), Frame RGB [1, 2, 3] (rec_ns 100), Step 0, Step 0, Step 0]
        (main_start (parse_args []))))
   \<and> \<not> (\<exists>n x. ImShow n x \<in> set (out (exec cv_sample (parse_args [])
        [Frame SLAM [7] (rec_ns 50), Frame RGB [1, 2, 3] (rec_ns 100), Step 0, Step 0, Step 0]
        (main_start (parse_args [])))) \<and> n \<noteq> ''Aria RGB (press q to quit)'')"
proof -
  let ?a = "parse_args [Opt_show_slam]"
  let ?w = "exec cv_sample ?a [Frame SLAM [7] (rec_ns 50), Step 0, Step 0] (main_start ?a)"
  let ?es = "[Frame SLAM [7] (rec_ns 50), Frame RGB [1, 2, 3] (rec_ns 100), Step 0, Step 0, Step 0]"
  let ?v = "exec cv_sample (parse_args []) ?es (main_start (parse_args []))"
  have 1: "phase ?w = AtShowSlam" by (simp add: run_defs parse_args_def)
  have 2: "show_slam ?a" by (simp add: parse_args_def)
  have 3: "slam ?w = Some 1" by (simp add: run_defs parse_args_def)
  then have nn: "slam ?w \<noteq> None" by simp
  from slam_window_iff_flag_and_record [of "?w" cv_sample "?a" 0 "[]"] 1 2 nn
  have 4: "\<exists>x. ImShow ''Aria SLAM'' x \<in> set (drop (length (out ?w)) (out (main_step cv_sample ?a 0 ?w)))"
    by blast
  have 5: "\<not> show_slam (parse_args [])" by (simp add: parse_args_def parser_defaults_def)
  have "drop 2 (out ?v) = [CvtColor 2 4, PutText 4 ''RGB ts(ns): 100'',
      ImShow ''Aria RGB (press q to quit)'' 4]"
    by (simp add: run_defs parse_args_def)
  then have "ImShow ''Aria RGB (press q to quit)'' 4 \<in> set (drop 2 (out ?v))" by simp
  then have 6: "ImShow ''Aria RGB (press q to quit)'' 4 \<in> set (out ?v)" by (rule in_set_dropD)
  from slam_window_iff_flag_and_record [of "main_start (parse_args [])" cv_sample "parse_args []" 0 "?es"] 5
  have 7: "\<not> (\<exists>n x. ImShow n x \<in> set (out ?v) \<and> n \<noteq> ''Aria RGB (press q to quit)'')"
    by blast
  from 1 2 3 4 5 6 7 show ?thesis by blast
qed

text \<open>
  C5. The quit key and the interrupt lead to the same teardown. When the key poll returns
  a value whose low byte is \<^verbatim>\<open>ord("q")\<close>, and when \<^verbatim>\<open>KeyboardInterrupt\<close> is raised at any
  statement of the loop, the windows are destroyed, the closing line is printed and \<^verbatim>\<open>main\<close>
  returns. In every run, \<^verbatim>\<open>main\<close> has left the \<^verbatim>\<open>try\<close> statement only by returning, with
  \<^verbatim>\<open>destroyAllWindows\<close> called once, as its last call to OpenCV; while the loop runs it
  has not been called.
\<close>

theorem quit_and_interrupt_same_teardown:
  "(phase w = AtWaitKey \<and> k AND 0xFF = ord CHR ''q'' \<longrightarrow>
      main_step cv a k w =
        w\<lparr>out := out w @ [WaitKey k, Print ''[Receiver] Quit requested.'',
                          DestroyAllWindows, Print ''[Receiver] Done.''],
          phase := Exited Returned\<rparr>)
   \<and> ((\<forall>st. phase w \<noteq> Exited st) \<longrightarrow>
      interrupt w =
        w\<lparr>out := out w @ [Print (CHR 0x0A # ''[Receiver] KeyboardInterrupt, exiting...''),
                          DestroyAllWindows, Print ''[Receiver] Done.''],
          phase := Exited Returned\<rparr>)
   \<and> (case phase (exec cv a es (main_start a)) of
         Exited st \<Rightarrow> st = Returned
           \<and> (\<exists>pre. out (exec cv a es (main_start a)) = pre @ [DestroyAllWindows, Print ''[Receiver] Done.'']
                  \<and> DestroyAllWindows \<notin> set pre)
       | _ \<Rightarrow> DestroyAllWindows \<notin> set (out (exec cv a es (main_start a))))"
  using teardown_in_run [of cv a es]
  by (simp add: main_step_AtWaitKey interrupt_running)

theorem quit_and_interrupt_same_teardown_witness:
  "phase (exec cv_sample (parse_args []) [Step 0, Step 0, Step 0] (main_start (parse_args []))) = AtWaitKey
   \<and> (369 :: int) AND 0xFF = ord CHR ''q''
   \<and> main_step cv_sample (parse_args []) 369
        (exec cv_sample (parse_args []) [Step 0, Step 0, Step 0] (main_start (parse_args [])))
       = (exec cv_sample (parse_args []) [Step 0, Step 0, Step 0] (main_start (parse_args [])))
           \<lparr>out := out (exec cv_sample (parse_args []) [Step 0, Step 0, Step 0] (main_start (parse_args [])))
                   @ [WaitKey 369, Print ''[Receiver] Quit requested.'', DestroyAllWindows,
                      Print ''[Receiver] Done.''],
             phase := Exited Returned\<rparr>
   \<and> phase (exec cv_sample (parse_args []) [Frame RGB [1, 2, 3] (rec_ns 100), Step 0, Step 0]
        (main_start (parse_args []))) = AtShowSlam
   \<and> drop 2 (out (interrupt (exec cv_sample (parse_args [])
        [Frame RGB [1, 2, 3] (rec_ns 100), Step 0, Step 0] (main_start (parse_args [])))))
       = [CvtColor 1 2, PutText 2 ''RGB ts(ns): 100'', ImShow ''Aria RGB (press q to quit)'' 2,
          Print (CHR 0x0A # ''[Receiver] KeyboardInterrupt, exiting...''), DestroyAllWindows,
          Print ''[Receiver] Done.'']
   \<and> phase (interrupt (exec cv_sample (parse_args [])
        [Frame RGB [1, 2, 3] (rec_ns 100), Step 0, Step 0] (main_start (parse_args [])))) = Exited Returned"
proof -
  let ?a = "parse_args []"
  let ?w = "exec cv_sample ?a [Step 0, Step 0, Step 0] (main_start ?a)"
  let ?v = "exec cv_sample ?a [Frame RGB [1, 2, 3] (rec_ns 100), Step 0, Step 0] (main_start ?a)"
  have 1: "phase ?w = AtWaitKey" by (simp add: run_defs parse_args_def)
  have 2: "(369 :: int) AND 0xFF = ord CHR ''q''" by (simp add: ord_def)
  from quit_and_interrupt_same_teardown [of "?w" 369 cv_sample "?a" "[]"] 1 2
  have 3: "main_step cv_sample ?a 369 ?w
       = ?w\<lparr>out := out ?w @ [WaitKey 369, Print ''[Receiver] Quit requested.'', DestroyAllWindows,
                      Print ''[Receiver] Done.''],
             phase := Exited Returned\<rparr>"
    by blast
  have 4: "phase ?v = AtShowSlam" by (simp add: run_defs parse_args_def)
  then have r: "\<forall>st. phase ?v \<noteq> Exited st" by simp
  from quit_and_interrupt_same_teardown [of "?v" 0 cv_sample "?a" "[]"] r
  have i: "interrupt ?v
       = ?v\<lparr>out := out ?v @ [Print (CHR 0x0A # ''[Receiver] KeyboardInterrupt, exiting...''),
                          DestroyAllWindows, Print ''[Receiver] Done.''],
          phase := Exited Returned\<rparr>"
    by blast
  have o: "drop 2 (out ?v) = [CvtColor 1 2, PutText 2 ''RGB ts(ns): 100'',
      ImShow ''Aria RGB (press q to quit)'' 2]"
    by (simp add: run_defs parse_args_def)
  have l: "length (out ?v) = 5" by (simp add: run_defs parse_args_def)
  have 5: "drop 2 (out (interrupt ?v))
       = [CvtColor 1 2, PutText 2 ''RGB ts(ns): 100'', ImShow ''Aria RGB (press q to quit)'' 2,
          Print (CHR 0x0A # ''[Receiver] KeyboardInterrupt, exiting...''), DestroyAllWindows,
          Print ''[Receiver] Done.'']"
    unfolding i using o l by simp
  have 6: "phase (interrupt ?v) = Exited Returned" unfolding i by simp
  from 1 2 3 4 5 6 show ?thesis by blast
qed

text \<open>
  C4. When the snapshot holds no image for a stream, the statement that would show it does
  nothing and the loop goes on to its next statement. No run leaves \<^verbatim>\<open>main\<close> by an
  exception. In a run that starts with an RGB frame and then sees only RGB frames and loop
  statements, nothing is ever shown in the SLAM window, and the RGB window has been shown
  once for every key poll made, so once in every iteration up to and including the one
  whose poll observes the quit key.
\<close>

theorem absent_stream_skipped:
  "(phase w = AtShowRgb \<and> rgb w = None \<longrightarrow> main_step cv a k w = w\<lparr>phase := AtShowSlam\<rparr>)
   \<and> (phase w = AtShowSlam \<and> slam w = None \<longrightarrow> main_step cv a k w = w\<lparr>phase := AtWaitKey\<rparr>)
   \<and> phase (exec cv a es (main_start a)) \<noteq> Exited (Raised err)
   \<and> (list_all rgb_only_event es' \<longrightarrow>
        (let w' = exec cv a (Frame RGB d r # es') (main_start a)
         in length (filter is_rgb_show (out w'))
              = length (filter is_poll (out w'))
                + (if phase w' = AtShowSlam \<or> phase w' = AtWaitKey then 1 else 0)
            \<and> \<not> list_ex is_slam_show (out w')))"
  using rgb_only_run [of es' cv a d r] never_raised [of cv a es err]
  by (auto simp: main_step_phase rgb_only_inv_def Let_def)

theorem absent_stream_skipped_witness:
  "phase (exec cv_sample (parse_args []) [Step 0] (main_start (parse_args []))) = AtShowRgb
   \<and> rgb (exec cv_sample (parse_args []) [Step 0] (main_start (parse_args []))) = None
   \<and> main_step cv_sample (parse_args []) 0 (exec cv_sample (parse_args []) [Step 0] (main_start (parse_args [])))
       = (exec cv_sample (parse_args []) [Step 0] (main_start (parse_args [])))\<lparr>phase := AtShowSlam\<rparr>
   \<and> phase (exec cv_sample (parse_args []) [Step 0, Step 0] (main_start (parse_args []))) = AtShowSlam
   \<and> slam (exec cv_sample (parse_args []) [Step 0, Step 0] (main_start (parse_args []))) = None
   \<and> main_step cv_sample (parse_args []) 0
        (exec cv_sample (parse_args []) [Step 0, Step 0] (main_start (parse_args [])))
       = (exec cv_sample (parse_args []) [Step 0, Step 0] (main_start (parse_args [])))\<lparr>phase := AtWaitKey\<rparr>
   \<and> list_all rgb_only_event
        [Step 0, Step 0, Step 0, Step 0, Step 0, Step 0, Step 0, Step 0, Step 113 :: nat list event]
   \<and> phase (exec cv_sample (parse_args [])
        (Frame RGB [1, 2, 3] (rec_ns 100)
           # [Step 0, Step 0, Step 0, Step 0, Step 0, Step 0, Step 0, Step 0, Step 113])
        (main_start (parse_args []))) = Exited Returned
   \<and> length (filter is_poll (out (exec cv_sample (parse_args [])
        (Frame RGB [1, 2, 3] (rec_ns 100)
           # [Step 0, Step 0, Step 0, Step 0, Step 0, Step 0, Step 0, Step 0, Step 113])
        (main_start (parse_args []))))) = 2
   \<and> length (filter is_rgb_show (out (exec cv_sample (parse_args [])
        (Frame RGB [1, 2, 3] (rec_ns 100)
           # [Step 0, Step 0, Step 0, Step 0, Step 0, Step 0, Step 0, Step 0, Step 113])
        (main_start (parse_args []))))) = 2"
proof -
  let ?a = "parse_args []"
  let ?w = "exec cv_sample ?a [Step 0] (main_start ?a)"
  let ?es = "[Step 0, Step 0, Step 0, Step 0, Step 0, Step 0, Step 0, Step 0, Step 113 :: nat list event]"
  let ?v = "exec cv_sample ?a (Frame RGB [1, 2, 3] (rec_ns 100) # ?es) (main_start ?a)"
  have 1: "phase ?w = AtShowRgb" by (simp add: run_defs parse_args_def)
  have 2: "rgb ?w = None" by (simp add: run_defs parse_args_def)
  from absent_stream_skipped [where w = "?w" and k = 0 and cv = cv_sample and a = "?a" and es = "[]"
      and err = Cv2Error and es' = "[]" and d = "[1, 2, 3]" and r = "rec_ns 100"] 1 2
  have 3: "main_step cv_sample ?a 0 ?w = ?w\<lparr>phase := AtShowSlam\<rparr>" by blast
  let ?u = "exec cv_sample ?a [Step 0, Step 0] (main_start ?a)"
  have s1: "phase ?u = AtShowSlam" by (simp add: run_defs parse_args_def)
  have s2: "slam ?u = None" by (simp add: run_defs parse_args_def)
  from absent_stream_skipped [where w = "?u" and k = 0 and cv = cv_sample and a = "?a" and es = "[]"
      and err = Cv2Error and es' = "[]" and d = "[1, 2, 3]" and r = "rec_ns 100"] s1 s2
  have s3: "main_step cv_sample ?a 0 ?u = ?u\<lparr>phase := AtWaitKey\<rparr>" by blast
  have 4: "list_all rgb_only_event ?es" by simp
  have 5: "phase ?v = Exited Returned" by (simp add: run_defs parse_args_def)
  have 6: "length (filter is_poll (out ?v)) = 2" by (simp add: run_defs parse_args_def)
  from absent_stream_skipped [where w = "?w" and k = 0 and cv = cv_sample and a = "?a" and es = "[]"
      and err = Cv2Error and es' = "?es" and d = "[1, 2, 3]" and r = "rec_ns 100"] 4
  have "length (filter is_rgb_show (out ?v))
      = length (filter is_poll (out ?v)) + (if phase ?v = AtShowSlam \<or> phase ?v = AtWaitKey then 1 else 0)"
    unfolding Let_def by blast
  with 5 6 have 7: "length (filter is_rgb_show (out ?v)) = 2" by simp
  from 1 2 3 s1 s2 s3 4 5 6 7 show ?thesis by blast
qed

subsection \<open>Configuration\<close>



text \<open>
  C10. \<^verbatim>\<open>build_receiver\<close> registers both callbacks whatever its arguments, and does not
  receive the flag \<^verbatim>\<open>--show-slam\<close>: the receiver, with its recording path, is the same with
  and without the flag. A SLAM frame delivered in any run is therefore stored in the cache
  with its timestamp, also without the flag, in which case no run shows anything in the
  SLAM window.
\<close>

theorem callbacks_registered_unconditionally:
  "rgb_cb (build_receiver h n v) = Some Rgb_callback
   \<and> slam_cb (build_receiver h n v) = Some Slam_callback
   \<and> sr (main_start (a\<lparr>show_slam := b\<rparr>)) = sr (main_start a)
   \<and> stored SLAM (exec cv a (es @ [Frame SLAM d r]) (main_start a)) = (Some d, Some (capture_timestamp_ns r))
   \<and> (\<not> show_slam a \<longrightarrow> (\<forall>x. ImShow ''Aria SLAM'' x \<notin> set (out (exec cv a es' (main_start a)))))"
  using shows_in_run [of "''Aria SLAM''" _ cv a es']
  by (auto simp: build_receiver_fields sr_main_start stored_exec last_put_snoc simp del: stored.simps)

theorem callbacks_registered_unconditionally_witness:
  "\<not> show_slam (parse_args [])
   \<and> stored SLAM (exec cv_sample (parse_args []) ([Step 0] @ [Frame SLAM [7] (rec_ns 50)])
        (main_start (parse_args []))) = (Some [7], Some 50)
   \<and> (\<forall>x. ImShow ''Aria SLAM'' x \<notin> set (out (exec cv_sample (parse_args [])
        [Frame SLAM [7] (rec_ns 50), Step 0, Step 0, Step 0, Step 0] (main_start (parse_args [])))))
   \<and> drop 2 (out (exec cv_sample (parse_args [])
        [Frame SLAM [7] (rec_ns 50), Step 0, Step 0, Step 0, Step 0] (main_start (parse_args []))))
       = [WaitKey 0]"
proof -
  let ?a = "parse_args []"
  let ?es = "[Frame SLAM [7] (rec_ns 50), Step 0, Step 0, Step 0, Step 0]"
  have 1: "\<not> show_slam ?a" by (simp add: parse_args_def parser_defaults_def)
  from callbacks_registered_unconditionally [where h = "''0.0.0.0''" and n = 6768 and v = "[]"
      and a = "?a" and b = False and cv = cv_sample and es = "[Step 0]" and d = "[7]"
      and r = "rec_ns 50" and es' = "?es"] 1
  have 2: "stored SLAM (exec cv_sample ?a ([Step 0] @ [Frame SLAM [7] (rec_ns 50)]) (main_start ?a))
        = (Some [7], Some (capture_timestamp_ns (rec_ns 50)))"
    and 3: "\<forall>x. ImShow ''Aria SLAM'' x \<notin> set (out (exec cv_sample ?a ?es (main_start ?a)))"
    by blast+
  have 4: "capture_timestamp_ns (rec_ns 50) = 50" by (simp add: rec_ns_def)
  have 5: "drop 2 (out (exec cv_sample ?a ?es (main_start ?a))) = [WaitKey 0]"
    by (simp add: run_defs parse_args_def)
  from 1 2 3 5 show ?thesis unfolding 4 by blast
qed




end
